theory Spec2Isabelle
  imports Complex_Main "HOL-Library.AList" "HOL-Library.Multiset"
begin

section \<open>Python primitives used by the scheduler\<close>

text \<open>
  The scheduler is a single Python script (\<^verbatim>\<open>app.py\<close>). Its integers are unbounded
  (\<^typ>\<open>int\<close>), its strings are modelled as byte strings (\<^typ>\<open>string\<close>, UTF-8 for the
  one non-ASCII literal), its dictionaries as maps or, where insertion order is observable,
  as association lists. Every implicit raise of the script (a missing dictionary key, a
  list index out of range) is a branch returning \<open>Inl\<close>.
\<close>

datatype error = KeyError | IndexError

definition bind_result :: "error + 'a \<Rightarrow> ('a \<Rightarrow> error + 'b) \<Rightarrow> error + 'b" where
  "bind_result m f = (case m of Inl e \<Rightarrow> Inl e | Inr x \<Rightarrow> f x)"

text \<open>A \<^verbatim>\<open>for\<close> loop whose body may raise: the first error ends the loop.\<close>

fun fold_result :: "('a \<Rightarrow> 's \<Rightarrow> error + 's) \<Rightarrow> 'a list \<Rightarrow> 's \<Rightarrow> error + 's" where
  "fold_result f [] s = Inr s"
| "fold_result f (x # xs) s = bind_result (f x s) (fold_result f xs)"

text \<open>
  Slice bounds as Python adjusts them: a negative bound counts from the end, and every
  bound is clamped to \<open>[0, n]\<close>. A slice never raises.
\<close>

definition adjust_index :: "int \<Rightarrow> nat \<Rightarrow> nat" where
  "adjust_index i n = (if i < 0 then nat (int n + i) else min (nat i) n)"

definition py_slice :: "'a list \<Rightarrow> int \<Rightarrow> int \<Rightarrow> 'a list" where
  \<comment> \<open>\<^verbatim>\<open>xs[a:b]\<close>\<close>
  "py_slice xs a b =
     (let n = length xs; lo = adjust_index a n; hi = adjust_index b n
      in take (hi - lo) (drop lo xs))"

definition py_slice_from :: "'a list \<Rightarrow> int \<Rightarrow> 'a list" where
  \<comment> \<open>\<^verbatim>\<open>xs[a:]\<close>\<close>
  "py_slice_from xs a = drop (adjust_index a (length xs)) xs"

definition py_slice_to :: "'a list \<Rightarrow> int \<Rightarrow> 'a list" where
  \<comment> \<open>\<^verbatim>\<open>xs[:b]\<close>\<close>
  "py_slice_to xs b = take (adjust_index b (length xs)) xs"

definition py_index :: "'a list \<Rightarrow> int \<Rightarrow> error + 'a" where
  \<comment> \<open>\<^verbatim>\<open>xs[i]\<close>\<close>
  "py_index xs i =
     (if i < - int (length xs) \<or> int (length xs) \<le> i then Inl IndexError
      else Inr (xs ! nat (if i < 0 then int (length xs) + i else i)))"

text \<open>Decimal rendering of an integer, as \<^verbatim>\<open>str(i)\<close> and the f-string \<^verbatim>\<open>{i}\<close> do.\<close>

fun str_nat :: "nat \<Rightarrow> string" where
  "str_nat n = (if n < 10 then [''0123456789'' ! n]
                else str_nat (n div 10) @ [''0123456789'' ! (n mod 10)])"

definition py_str :: "int \<Rightarrow> string" where
  "py_str i = (if i < 0 then CHR ''-'' # str_nat (nat (- i)) else str_nat (nat i))"

text \<open>\<^verbatim>\<open>sep.join(xs)\<close>.\<close>

fun join :: "string \<Rightarrow> string list \<Rightarrow> string" where
  "join sep [] = []"
| "join sep [x] = x"
| "join sep (x # y # ys) = x @ sep @ join sep (y # ys)"

text \<open>
  \<^verbatim>\<open>s.split(sep)\<close> for a non-empty separator: the string is scanned from the left, every
  non-overlapping occurrence of \<open>sep\<close> ends the current piece, and the last piece (possibly
  empty) is always returned. The script only ever splits on the literal \<^verbatim>\<open>", "\<close>; Python
  rejects an empty separator, which here simply never matches.
\<close>

function split_from :: "string \<Rightarrow> string \<Rightarrow> string \<Rightarrow> string list" where
  "split_from sep cur [] = [cur]"
| "split_from sep cur (c # cs) =
     (if sep \<noteq> [] \<and> take (length sep) (c # cs) = sep
      then cur # split_from sep [] (drop (length sep) (c # cs))
      else split_from sep (cur @ [c]) cs)"
  by pat_completeness auto
termination
  by (relation "measure (\<lambda>(sep, cur, s). length s)") auto

definition py_split :: "string \<Rightarrow> string \<Rightarrow> string list" where
  "py_split s sep = split_from sep [] s"

section \<open>The roster date and the rotation index\<close>

text \<open>
  A \<^verbatim>\<open>datetime.date\<close> is a (year, month, day) triple of the proleptic Gregorian calendar;
  \<open>tm_yday\<close> is the day of the year, 1 for 1 January, as \<^verbatim>\<open>date.timetuple().tm_yday\<close>
  returns it.
\<close>

type_synonym date = "nat \<times> nat \<times> nat"

definition is_leap :: "nat \<Rightarrow> bool" where
  "is_leap y = (y mod 4 = 0 \<and> (y mod 100 \<noteq> 0 \<or> y mod 400 = 0))"

definition days_in_month :: "nat \<Rightarrow> nat \<Rightarrow> nat" where
  "days_in_month y m =
     (if m = 2 then (if is_leap y then 29 else 28)
      else if m = 4 \<or> m = 6 \<or> m = 9 \<or> m = 11 then 30 else 31)"

definition valid_date :: "date \<Rightarrow> bool" where
  "valid_date dt = (case dt of (y, m, d) \<Rightarrow>
     1 \<le> y \<and> y \<le> 9999 \<and> 1 \<le> m \<and> m \<le> 12 \<and> 1 \<le> d \<and> d \<le> days_in_month y m)"

definition tm_yday :: "date \<Rightarrow> nat" where
  "tm_yday dt = (case dt of (y, m, d) \<Rightarrow> sum_list (map (days_in_month y) [1..<m]) + d)"

text \<open>The calendar day after \<open>dt\<close>, that is \<^verbatim>\<open>dt + timedelta(days=1)\<close>.\<close>

definition next_day :: "date \<Rightarrow> date" where
  "next_day dt = (case dt of (y, m, d) \<Rightarrow>
     if d < days_in_month y m then (y, m, d + 1)
     else if m < 12 then (y, m + 1, 1)
     else (y + 1, 1, 1))"

definition add_days :: "nat \<Rightarrow> date \<Rightarrow> date" where
  "add_days n dt = (next_day ^^ n) dt"

definition rotation_index :: "date \<Rightarrow> int" where
  \<comment> \<open>\<^verbatim>\<open>day_of_year = selected_date.timetuple().tm_yday; rotation_index = day_of_year % 4\<close>\<close>
  "rotation_index selected_date = int (tm_yday selected_date) mod 4"

section \<open>Cohorts and their rotation: \<^verbatim>\<open>generate_schedule\<close>\<close>

record volunteer =
  id_str :: string
  id_num :: int

definition master_list :: "int \<Rightarrow> volunteer list" where
  \<comment> \<open>\<^verbatim>\<open>[{"id_str": f"V-{i}", "id_num": i} for i in range(1, total_ppl + 1)]\<close>\<close>
  "master_list total_ppl =
     map (\<lambda>i. \<lparr>id_str = ''V-'' @ py_str i, id_num = i\<rparr>) [1..total_ppl]"

text \<open>
  \<^verbatim>\<open>chunk = math.ceil(total_ppl / 4)\<close>. The quotient is a float; it is exact for every
  \<open>total_ppl\<close> below \<open>2^53\<close>, which is also the largest integer the number input widget
  delivers, so the ceiling is the integer ceiling of the exact quotient.
\<close>

definition chunk_of :: "int \<Rightarrow> int" where
  "chunk_of total_ppl = - ((- total_ppl) div 4)"

definition groups_of :: "int \<Rightarrow> volunteer list list" where
  "groups_of total_ppl =
     (let master_list = master_list total_ppl;
          chunk = chunk_of total_ppl
      in [py_slice master_list 0 chunk,
          py_slice master_list chunk (chunk * 2),
          py_slice master_list (chunk * 2) (chunk * 3),
          py_slice_from master_list (chunk * 3)])"

definition rotated_groups :: "'a list \<Rightarrow> int \<Rightarrow> 'a list" where
  \<comment> \<open>\<^verbatim>\<open>groups[rot_idx:] + groups[:rot_idx]\<close>\<close>
  "rotated_groups groups rot_idx = py_slice_from groups rot_idx @ py_slice_to groups rot_idx"

definition cohort_map :: "'a list \<Rightarrow> error + (string \<rightharpoonup> 'a)" where
  "cohort_map rotated =
     bind_result (py_index rotated 0) (\<lambda>g0.
     bind_result (py_index rotated 1) (\<lambda>g1.
     bind_result (py_index rotated 2) (\<lambda>g2.
     bind_result (py_index rotated 3) (\<lambda>g3.
       Inr [''1'' \<mapsto> g0, ''2'' \<mapsto> g1, ''3'' \<mapsto> g2, ''4'' \<mapsto> g3]))))"

definition generate_schedule :: "int \<Rightarrow> int \<Rightarrow> error + (string \<rightharpoonup> volunteer list)" where
  "generate_schedule total_ppl rot_idx =
     cohort_map (rotated_groups (groups_of total_ppl) rot_idx)"

text \<open>The four slot keys, in the order the dictionary literal lists them.\<close>

definition slot_keys :: "string list" where
  "slot_keys = [''1'', ''2'', ''3'', ''4'']"

section \<open>The shift pattern and the allocation loop\<close>

text \<open>Each entry: the time slot's label, the active slot keys, the people needed per counter.\<close>

definition schedule_pattern :: "(string \<times> string list \<times> int) list" where
  "schedule_pattern =
    [(''08:00 - 10:00 (Peak)'', [''1'', ''2''], 4),
     (''10:00 - 12:00 (Peak)'', [''3'', ''4''], 4),
     (''12:00 - 14:00 (Peak)'', [''1'', ''2''], 4),
     (''14:00 - 16:00 (Peak)'', [''3'', ''4''], 4),
     (''16:00 - 18:00 (Off)'', [''1''], 2),
     (''18:00 - 20:00 (Off)'', [''2''], 2),
     (''20:00 - 22:00 (Off)'', [''3''], 2),
     (''22:00 - 00:00 (Off)'', [''4''], 2),
     (''00:00 - 02:00 (Off)'', [''1''], 2),
     (''02:00 - 04:00 (Off)'', [''2''], 2),
     (''04:00 - 06:00 (Off)'', [''3''], 2),
     (''06:00 - 08:00 (Off)'', [''4''], 2)]"

definition counters :: nat where
  "counters = 30"

text \<open>
  The marker of an unfilled counter: U+26A0, U+FE0F (six bytes in UTF-8), a space and
  \<^verbatim>\<open>EMPTY\<close>.
\<close>

definition empty_marker :: string where
  "empty_marker =
     [CHR 0xE2, CHR 0x9A, CHR 0xA0, CHR 0xEF, CHR 0xB8, CHR 0x8F] @ '' EMPTY''"

text \<open>\<^verbatim>\<open>", ".join([p['id_str'] for p in ppl])\<close>\<close>

definition names_of :: "volunteer list \<Rightarrow> string" where
  "names_of ppl = join '', '' (map id_str ppl)"

text \<open>
  A row of the table is a Python dictionary from column name to cell, kept as an association
  list in insertion order; storing under a key already present replaces the value in place
  (\<^const>\<open>AList.update\<close>). \<open>assignments\<close>, a dictionary keyed by \<open>0, ..., counters - 1\<close>, is the
  list of its rows; a counter index without a row is the \<open>KeyError\<close> of the script.
\<close>

type_synonym row = "(string \<times> string) list"

text \<open>Step 1 of the loop body, one key at a time: \<^verbatim>\<open>pool.extend(cohort_data[key])\<close>.\<close>

definition merge_step ::
  "(string \<rightharpoonup> volunteer list) \<Rightarrow> string \<Rightarrow> volunteer list \<Rightarrow> error + volunteer list" where
  "merge_step cohort_data key pool =
     (case cohort_data key of None \<Rightarrow> Inl KeyError | Some g \<Rightarrow> Inr (pool @ g))"

text \<open>Steps 1 and 2: merge, then the stable sort by \<open>id_num\<close>.\<close>

definition slot_pool ::
  "(string \<rightharpoonup> volunteer list) \<Rightarrow> string list \<Rightarrow> error + volunteer list" where
  "slot_pool cohort_data active_group_keys =
     bind_result (fold_result (merge_step cohort_data) active_group_keys [])
       (\<lambda>pool. Inr (sort_key id_num pool))"

text \<open>
  The text of a counter's cell:
  \<^verbatim>\<open>names_str = ", ".join(...); if not assigned_ppl: names_str = "... EMPTY"\<close>
\<close>

definition names_str :: "volunteer list \<Rightarrow> string" where
  "names_str assigned_ppl =
     (if assigned_ppl = [] then empty_marker else names_of assigned_ppl)"

text \<open>Step 3, the body of the loop over the counters; the state is the table and \<open>current_idx\<close>.\<close>

definition counter_step ::
  "volunteer list \<Rightarrow> int \<Rightarrow> string \<Rightarrow> nat \<Rightarrow> row list \<times> int \<Rightarrow> error + (row list \<times> int)" where
  "counter_step pool req_per_counter time_slot i st =
     (case st of (assignments, current_idx) \<Rightarrow>
        let assigned_ppl = py_slice pool current_idx (current_idx + req_per_counter)
        in if i < length assignments
           then Inr (assignments[i := AList.update time_slot (names_str assigned_ppl)
                                         (assignments ! i)],
                     current_idx + req_per_counter)
           else Inl KeyError)"

text \<open>The body of the loop over the pattern; the state is the table and the reserves log.\<close>

definition slot_step ::
  "(string \<rightharpoonup> volunteer list) \<Rightarrow> string \<times> string list \<times> int \<Rightarrow>
   row list \<times> (string \<times> string) list \<Rightarrow> error + (row list \<times> (string \<times> string) list)" where
  "slot_step cohort_data entry st =
     (case entry of (time_slot, active_group_keys, req_per_counter) \<Rightarrow>
      case st of (assignments, reserves_log) \<Rightarrow>
        bind_result (slot_pool cohort_data active_group_keys) (\<lambda>pool.
        bind_result (fold_result (counter_step pool req_per_counter time_slot) [0..<counters]
                       (assignments, 0)) (\<lambda>(assignments', current_idx).
          let leftovers = py_slice_from pool current_idx
          in Inr (assignments',
                  if leftovers \<noteq> [] then reserves_log @ [(time_slot, names_of leftovers)]
                  else reserves_log))))"

text \<open>
  A reserves log entry \<^verbatim>\<open>{"Time": t, "Reserves": s}\<close> is the pair \<open>(t, s)\<close>.
\<close>

definition build_assignments ::
  "(string \<rightharpoonup> volunteer list) \<Rightarrow> error + (row list \<times> (string \<times> string) list)" where
  "build_assignments cohort_data =
     fold_result (slot_step cohort_data) schedule_pattern (replicate counters [], [])"

section \<open>The assembled table and the search\<close>

text \<open>\<^verbatim>\<open>row = {"Counter": f"Counter {i+1}"}; row.update(assignments[i])\<close>\<close>

definition counter_label :: "nat \<Rightarrow> string" where
  "counter_label i = ''Counter '' @ py_str (int i + 1)"

definition table_row :: "row list \<Rightarrow> nat \<Rightarrow> error + row" where
  "table_row assignments i =
     (if i < length assignments
      then Inr (fold (\<lambda>(k, v). AList.update k v) (assignments ! i)
                  [(''Counter'', counter_label i)])
      else Inl KeyError)"

definition final_table_data :: "row list \<Rightarrow> error + row list" where
  "final_table_data assignments =
     fold_result (\<lambda>i rows. bind_result (table_row assignments i) (\<lambda>row. Inr (rows @ [row])))
       [0..<counters] []"

text \<open>
  The data frame built from the rows: its columns are the keys of the rows in the order
  they are first seen, and a cell a row has no key for reads as \<^verbatim>\<open>nan\<close>.
\<close>

definition insert_new :: "string \<Rightarrow> string list \<Rightarrow> string list" where
  "insert_new k cols = (if k \<in> set cols then cols else cols @ [k])"

definition df_columns :: "row list \<Rightarrow> string list" where
  "df_columns rows = fold (\<lambda>row cols. fold insert_new (map fst row) cols) rows []"

definition cell :: "row \<Rightarrow> string \<Rightarrow> string" where
  "cell row col = (case map_of row col of Some v \<Rightarrow> v | None \<Rightarrow> ''nan'')"

text \<open>The membership test of the search: \<^verbatim>\<open>target in s.split(", ")\<close>.\<close>

definition token_match :: "string \<Rightarrow> string \<Rightarrow> bool" where
  "token_match target s = (target \<in> set (py_split s '', ''))"

text \<open>
  The two scans of the search. A found record \<^verbatim>\<open>{"Time", "Location", "Role"}\<close> is a
  triple.
\<close>

definition find_volunteer ::
  "string \<Rightarrow> row list \<Rightarrow> (string \<times> string) list \<Rightarrow> (string \<times> string \<times> string) list" where
  "find_volunteer target df reserves_log =
     concat (map (\<lambda>row.
        concat (map (\<lambda>col.
           if col = ''Counter'' then []
           else if token_match target (cell row col)
                then [(col, cell row ''Counter'', ''Counter Duty'')] else [])
         (df_columns df))) df)
     @ concat (map (\<lambda>(time, reserves).
          if token_match target reserves then [(time, ''Reserve Area'', ''Standby'')] else [])
        reserves_log)"

text \<open>
  The search is modelled from its target on. The script builds the target as
  \<^verbatim>\<open>f"V-{int(q_num)}"\<close> from the digits of the query, so a target is \<^verbatim>\<open>V-\<close> followed by
  the decimal rendering of a number that is not negative; the theorems on the search are
  stated for every such target.
\<close>

text \<open>The value of a decimal digit character.\<close>

definition digit_value :: "char \<Rightarrow> nat" where
  "digit_value c = of_char c - 48"

text \<open>The whole script up to the table and the reserves log.\<close>

definition build_schedule :: "int \<Rightarrow> int \<Rightarrow> error + (row list \<times> (string \<times> string) list)" where
  "build_schedule total_volunteers rot_idx =
     bind_result (generate_schedule total_volunteers rot_idx) (\<lambda>cohort_data.
     bind_result (build_assignments cohort_data) (\<lambda>(assignments, reserves_log).
     bind_result (final_table_data assignments) (\<lambda>df. Inr (df, reserves_log))))"

section \<open>Reading a time slot label\<close>

text \<open>
  A label has the shape \<^verbatim>\<open>HH:MM - HH:MM (Regime)\<close>. Its two clock times, in minutes after
  midnight, and its regime tag are read off the fixed character positions.
\<close>

definition clock_minutes :: "string \<Rightarrow> nat" where
  "clock_minutes s =
     60 * (10 * digit_value (s ! 0) + digit_value (s ! 1))
     + (10 * digit_value (s ! 3) + digit_value (s ! 4))"

definition slot_start :: "string \<Rightarrow> nat" where
  "slot_start label = clock_minutes (take 5 label)"

definition slot_end :: "string \<Rightarrow> nat" where
  "slot_end label = clock_minutes (take 5 (drop 8 label))"

definition slot_regime :: "string \<Rightarrow> string" where
  "slot_regime label = drop 14 label"

section \<open>Closed forms used in the statements\<close>

text \<open>
  What the specification calls a counter's assignment, \<^verbatim>\<open>pool[i*req : i*req + req]\<close>, the
  reserves of a slot, \<^verbatim>\<open>pool[counters*req :]\<close>, and the shift pool of a list of slot keys.
  The loops compute them step by step; the theorems below relate the two.
\<close>

definition counter_slice :: "'a list \<Rightarrow> int \<Rightarrow> nat \<Rightarrow> 'a list" where
  "counter_slice pool req i = py_slice pool (int i * req) (int i * req + req)"

definition reserve_slice :: "'a list \<Rightarrow> int \<Rightarrow> 'a list" where
  "reserve_slice pool req = py_slice_from pool (int counters * req)"

definition shift_pool :: "(string \<rightharpoonup> volunteer list) \<Rightarrow> string list \<Rightarrow> volunteer list" where
  "shift_pool cohort_data keys = sort_key id_num (concat (map (\<lambda>k. the (cohort_data k)) keys))"

text \<open>
  The cells of counter \<open>i\<close> for a list of pattern entries, and the reserves log of such a
  list, written with the slices above.
\<close>

definition cells_of ::
  "(string \<rightharpoonup> volunteer list) \<Rightarrow> nat \<Rightarrow> (string \<times> string list \<times> int) list \<Rightarrow> row" where
  "cells_of cohort_data i pat =
     map (\<lambda>(ts, keys, req). (ts, names_str (counter_slice (shift_pool cohort_data keys) req i))) pat"

definition reserves_of ::
  "(string \<rightharpoonup> volunteer list) \<Rightarrow> (string \<times> string list \<times> int) list \<Rightarrow> (string \<times> string) list" where
  "reserves_of cohort_data pat =
     concat (map (\<lambda>(ts, keys, req).
        if reserve_slice (shift_pool cohort_data keys) req = [] then []
        else [(ts, names_of (reserve_slice (shift_pool cohort_data keys) req))]) pat)"

text \<open>A volunteer record as the master list builds it: a number and its display form.\<close>

definition canonical :: "volunteer \<Rightarrow> bool" where
  "canonical v = (0 \<le> id_num v \<and> id_str v = ''V-'' @ py_str (id_num v))"

section \<open>Lemmas on slices\<close>

lemma chunk_of_ceiling: "chunk_of N = \<lceil>real_of_int N / 4\<rceil>"
  unfolding chunk_of_def by linarith

lemma py_slice_nonneg:
  assumes "0 \<le> a" "a \<le> b"
  shows "py_slice xs a b = take (nat b - nat a) (drop (nat a) xs)"
proof (cases "nat a \<le> length xs")
  case True
  have "take (min (nat b) (length xs) - nat a) (drop (nat a) xs)
      = take (nat b - nat a) (drop (nat a) xs)"
    by (cases "nat b \<le> length xs") simp_all
  with True assms show ?thesis
    by (simp add: py_slice_def adjust_index_def Let_def min_absorb1)
next
  case False
  with assms show ?thesis
    by (simp add: py_slice_def adjust_index_def Let_def)
qed

lemma py_slice_from_nonneg: "0 \<le> a \<Longrightarrow> py_slice_from xs a = drop (nat a) xs"
  by (simp add: py_slice_from_def adjust_index_def min_def)

lemma take_drop_chunks:
  "take c xs @ take c (drop c xs) @ take c (drop (2 * c) xs) @ drop (3 * c) xs = xs"
proof -
  have a: "take c (drop (2 * c) xs) @ drop (3 * c) xs = drop (2 * c) xs"
    using append_take_drop_id [of c "drop (2 * c) xs"] by (simp add: add.commute)
  have b: "take c (drop c xs) @ drop (2 * c) xs = drop c xs"
    using append_take_drop_id [of c "drop c xs"] by (simp add: mult_2)
  show ?thesis by (simp add: a b)
qed

section \<open>The cohort builder\<close>

lemma groups_of_chunks:
  assumes "1 \<le> N"
  shows "groups_of N =
     (let c = nat \<lceil>real_of_int N / 4\<rceil>; ml = master_list N
      in [take c ml, take c (drop c ml), take c (drop (2 * c) ml), drop (3 * c) ml])"
proof -
  have c: "0 \<le> chunk_of N" using assms by (simp add: chunk_of_def)
  have n2: "nat (chunk_of N * 2) = 2 * nat (chunk_of N)"
    and n3: "nat (chunk_of N * 3) = 3 * nat (chunk_of N)"
    using c by (simp_all add: nat_mult_distrib)
  show ?thesis
    using c
    by (simp add: groups_of_def Let_def py_slice_nonneg py_slice_from_nonneg n2 n3
        chunk_of_ceiling [symmetric])
qed

lemma map_id_num_master_list: "map id_num (master_list N) = [1..N]"
  by (simp add: master_list_def comp_def)

text \<open>
  Claim C1. For every volunteer count \<open>N \<ge> 1\<close> the cohort builder returns exactly four
  cohorts: the first three are the consecutive chunks of \<open>ceil(N/4)\<close> volunteers of the
  master list (shorter or empty once the roster runs out) and the fourth is what remains.
  Put end to end they are the master list, whose identifiers are \<open>1, ..., N\<close> in order:
  no identifier occurs twice in the cohorts and their union is exactly \<open>{1..N}\<close>.
\<close>

theorem cohort_partition:
  assumes "1 \<le> N"
  shows "length (groups_of N) = 4
       \<and> groups_of N =
           (let c = nat \<lceil>real_of_int N / 4\<rceil>; ml = master_list N
            in [take c ml, take c (drop c ml), take c (drop (2 * c) ml), drop (3 * c) ml])
       \<and> concat (groups_of N) = master_list N
       \<and> map id_num (concat (groups_of N)) = [1..N]
       \<and> distinct (map id_num (concat (groups_of N)))
       \<and> id_num ` set (concat (groups_of N)) = {1..N}"
proof -
  have g: "groups_of N =
     (let c = nat \<lceil>real_of_int N / 4\<rceil>; ml = master_list N
      in [take c ml, take c (drop c ml), take c (drop (2 * c) ml), drop (3 * c) ml])"
    using assms by (rule groups_of_chunks)
  have cc: "concat (groups_of N) = master_list N"
    by (simp add: g Let_def take_drop_chunks)
  have ids: "map id_num (concat (groups_of N)) = [1..N]"
    by (simp only: cc map_id_num_master_list)
  have "id_num ` set (concat (groups_of N)) = set (map id_num (concat (groups_of N)))"
    by simp
  also have "\<dots> = {1..N}" by (simp only: ids set_upto)
  finally have st: "id_num ` set (concat (groups_of N)) = {1..N}" .
  have d: "distinct (map id_num (concat (groups_of N)))"
    by (simp only: ids distinct_upto)
  have l: "length (groups_of N) = 4" by (simp add: groups_of_def Let_def)
  from l g cc ids d st show ?thesis by blast
qed

theorem cohort_partition_witness:
  "(1::int) \<le> 5 \<and> map (map id_num) (groups_of 5) = [[1, 2], [3, 4], [5], []]
   \<and> id_num ` set (concat (groups_of 5)) = {1..5}"
proof -
  have h: "(1::int) \<le> 5" by simp
  note th = cohort_partition [OF h]
  have c: "nat \<lceil>real_of_int 5 / 4\<rceil> = 2" by linarith
  have m: "map id_num (master_list 5) = [1, 2, 3, 4, 5]"
    by (simp add: map_id_num_master_list upto.simps)
  have "groups_of 5 =
           (let c = nat \<lceil>real_of_int 5 / 4\<rceil>; ml = master_list 5
            in [take c ml, take c (drop c ml), take c (drop (2 * c) ml), drop (3 * c) ml])"
    using th by (elim conjE)
  then have "map (map id_num) (groups_of 5) = [[1, 2], [3, 4], [5], []]"
    by (simp add: Let_def c take_map [symmetric] drop_map [symmetric] m)
  moreover have "id_num ` set (concat (groups_of 5)) = {1..5}"
    using th by (elim conjE)
  ultimately show ?thesis by simp
qed

section \<open>The rotation mapper\<close>

lemma length4E:
  assumes "length gs = 4"
  obtains a b c d where "gs = [a, b, c, d]"
proof -
  from assms obtain a r1 where 1: "gs = a # r1" "length r1 = 3" by (cases gs) auto
  then obtain b r2 where 2: "r1 = b # r2" "length r2 = 2" by (cases r1) auto
  then obtain c r3 where 3: "r2 = c # r3" "length r3 = 1" by (cases r2) auto
  then obtain d where 4: "r3 = [d]" by (cases r3) auto
  from 1 2 3 4 that show thesis by simp
qed

lemma rotated_groups_in_range:
  assumes "- 4 \<le> r" "r \<le> 4"
  shows "rotated_groups [a, b, c, d] r =
         map (\<lambda>i. [a, b, c, d] ! ((i + nat (r mod 4)) mod 4)) [0..<4]"
proof -
  from assms consider "r = -4" | "r = -3" | "r = -2" | "r = -1" | "r = 0"
    | "r = 1" | "r = 2" | "r = 3" | "r = 4" by linarith
  then show ?thesis
    by cases (simp_all add: rotated_groups_def py_slice_from_def py_slice_to_def
        adjust_index_def upt_conv_Cons)
qed

lemma rotated_groups_out_of_range:
  assumes "r < - 4 \<or> 4 < r"
  shows "rotated_groups [a, b, c, d] r = [a, b, c, d]"
  using assms
  by (auto simp add: rotated_groups_def py_slice_from_def py_slice_to_def adjust_index_def)

lemma cohort_map_four:
  "cohort_map [a, b, c, d] = Inr (map_of (zip slot_keys [a, b, c, d]))"
  by (simp add: cohort_map_def py_index_def bind_result_def slot_keys_def fun_eq_iff)

lemma length_rotated_groups: "length (rotated_groups gs r) = length gs"
  by (auto simp add: rotated_groups_def py_slice_from_def py_slice_to_def adjust_index_def)

lemma rotated_groups_rotate:
  "rotated_groups gs r = rotate (adjust_index r (length gs)) gs"
proof -
  have le: "adjust_index r (length gs) \<le> length gs"
    unfolding adjust_index_def by (cases "r < 0") simp_all
  show ?thesis
  proof (cases "adjust_index r (length gs) = length gs")
    case True
    then show ?thesis
      by (simp add: rotated_groups_def py_slice_from_def py_slice_to_def rotate_drop_take)
  next
    case False
    with le have "adjust_index r (length gs) < length gs" by simp
    then show ?thesis
      by (simp add: rotated_groups_def py_slice_from_def py_slice_to_def rotate_drop_take)
  qed
qed

text \<open>
  Claim C5, as the code has it. Whatever integer \<open>r\<close> is passed, the mapper never fails and
  maps the keys \<open>'1'..'4'\<close> to the four cohorts, each cohort exactly once (for distinct
  cohorts: a bijection). For \<open>- 4 \<le> r \<le> 4\<close>, which covers every index \<open>day_of_year mod 4\<close>
  the caller computes, key number \<open>i\<close> is mapped to \<open>original[(i + (r mod 4)) mod 4]\<close>. An
  \<open>r\<close> outside that range is not reduced modulo 4: both slices are clamped and the cohorts
  stay in their original order.
\<close>

theorem rotation_mapper:
  assumes "length gs = 4"
  shows "cohort_map (rotated_groups gs r) = Inr (map_of (zip slot_keys (rotated_groups gs r)))
       \<and> rotated_groups gs r =
           (if - 4 \<le> r \<and> r \<le> 4 then map (\<lambda>i. gs ! ((i + nat (r mod 4)) mod 4)) [0..<4]
            else gs)
       \<and> mset (rotated_groups gs r) = mset gs
       \<and> (distinct gs \<longrightarrow>
            bij_betw (\<lambda>k. the (map_of (zip slot_keys (rotated_groups gs r)) k))
              (set slot_keys) (set gs))"
proof -
  from assms obtain a b c d where gs: "gs = [a, b, c, d]" by (rule length4E)
  have "length (rotated_groups gs r) = 4" by (simp add: length_rotated_groups assms)
  then obtain a' b' c' d' where rg: "rotated_groups gs r = [a', b', c', d']" by (rule length4E)
  have 1: "cohort_map (rotated_groups gs r) = Inr (map_of (zip slot_keys (rotated_groups gs r)))"
    by (simp only: rg cohort_map_four)
  have 2: "rotated_groups gs r =
           (if - 4 \<le> r \<and> r \<le> 4 then map (\<lambda>i. gs ! ((i + nat (r mod 4)) mod 4)) [0..<4]
            else gs)"
  proof (cases "- 4 \<le> r \<and> r \<le> 4")
    case True
    then show ?thesis unfolding gs using rotated_groups_in_range [of r a b c d] by simp
  next
    case False
    then have "r < - 4 \<or> 4 < r" by linarith
    then have "rotated_groups gs r = gs"
      unfolding gs by (rule rotated_groups_out_of_range)
    then show ?thesis by (subst if_not_P) (rule False)
  qed
  have 3: "mset (rotated_groups gs r) = mset gs"
  proof -
    have "mset (drop n gs @ take n gs) = mset (take n gs @ drop n gs)" for n
      by (simp only: mset_append add.commute)
    then show ?thesis
      by (simp add: rotated_groups_def py_slice_from_def py_slice_to_def)
  qed
  have 4: "bij_betw (\<lambda>k. the (map_of (zip slot_keys (rotated_groups gs r)) k))
              (set slot_keys) (set gs)" if d: "distinct gs"
  proof -
    have dr: "distinct [a', b', c', d']"
      using d rg by (metis distinct_rotate rotated_groups_rotate)
    have st: "set [a', b', c', d'] = set gs"
      using rg by (metis set_rotate rotated_groups_rotate)
    show ?thesis
      unfolding rg st [symmetric] using dr
      by (auto simp add: bij_betw_def inj_on_def slot_keys_def)
  qed
  from 1 2 3 4 show ?thesis by blast
qed

theorem rotation_mapper_witness:
  "length [10, 20, 30, 40::nat] = 4
   \<and> cohort_map (rotated_groups [10, 20, 30, 40::nat] 3) =
       Inr [''1'' \<mapsto> 40, ''2'' \<mapsto> 10, ''3'' \<mapsto> 20, ''4'' \<mapsto> 30]
   \<and> distinct [10, 20, 30, 40::nat]
   \<and> bij_betw (\<lambda>k. the (map_of (zip slot_keys (rotated_groups [10, 20, 30, 40::nat] 3)) k))
        (set slot_keys) (set [10, 20, 30, 40::nat])"
proof -
  have l: "length [10, 20, 30, 40::nat] = 4" by simp
  note th = rotation_mapper [OF l, of 3]
  have r: "rotated_groups [10, 20, 30, 40::nat] 3 = [40, 10, 20, 30]"
    using th by (simp add: upt_conv_Cons)
  have c: "cohort_map (rotated_groups [10, 20, 30, 40::nat] 3)
         = Inr (map_of (zip slot_keys (rotated_groups [10, 20, 30, 40::nat] 3)))"
    using th by (elim conjE)
  have c': "cohort_map (rotated_groups [10, 20, 30, 40::nat] 3) =
       Inr [''1'' \<mapsto> 40, ''2'' \<mapsto> 10, ''3'' \<mapsto> 20, ''4'' \<mapsto> 30]"
    unfolding c unfolding r by (simp add: slot_keys_def fun_eq_iff)
  have d: "distinct [10, 20, 30, 40::nat]" by simp
  have b: "bij_betw (\<lambda>k. the (map_of (zip slot_keys (rotated_groups [10, 20, 30, 40::nat] 3)) k))
        (set slot_keys) (set [10, 20, 30, 40::nat])"
    using th d by blast
  from l c' d b show ?thesis by blast
qed

text \<open>
  The rotation argument 5 is not treated as \<open>5 mod 4 = 1\<close>: key \<open>'1'\<close> receives the first
  cohort, not the second.
\<close>

lemma groups_of_8: "map (map id_num) (groups_of 8) = [[1, 2], [3, 4], [5, 6], [7, 8]]"
  by (simp add: groups_of_def Let_def chunk_of_def master_list_def upto.simps py_slice_def
      py_slice_from_def adjust_index_def)

theorem rotation_mod4_counterexample:
  "map_option (map id_num) (projr (generate_schedule 8 5) ''1'') = Some [1, 2]
   \<and> map id_num (groups_of 8 ! ((0 + nat (5 mod 4)) mod 4)) = [3, 4]"
proof -
  have l: "length (groups_of 8) = 4" by (simp add: groups_of_def Let_def)
  then obtain a b c d where g: "groups_of 8 = [a, b, c, d]" by (rule length4E)
  have r: "rotated_groups (groups_of 8) 5 = groups_of 8"
    unfolding g by (rule rotated_groups_out_of_range) simp
  have "generate_schedule 8 5 = Inr (map_of (zip slot_keys (groups_of 8)))"
    unfolding generate_schedule_def r unfolding g by (rule cohort_map_four)
  then have "projr (generate_schedule 8 5) ''1'' = Some (groups_of 8 ! 0)"
    by (simp add: g slot_keys_def)
  moreover have "map id_num (groups_of 8 ! 0) = [1, 2]" "map id_num (groups_of 8 ! 1) = [3, 4]"
    using groups_of_8 l by (simp_all add: nth_map [symmetric] del: nth_map)
  ultimately show ?thesis by simp
qed

section \<open>The rotation index across a year boundary\<close>

text \<open>
  Claim C4 at the turn of the year. 31 December 2025 is day 365 and 1 January 2026 is
  day 1: both have rotation index 1, so the groups do not rotate between these two
  consecutive days. Four days after 30 December 2025 (index 0) comes 3 January 2026,
  whose index is 3.
\<close>

theorem rotation_index_year_boundary:
  "valid_date (2025, 12, 31) \<and> next_day (2025, 12, 31) = (2026, 1, 1)
   \<and> rotation_index (2025, 12, 31) = 1 \<and> rotation_index (2026, 1, 1) = 1
   \<and> valid_date (2025, 12, 30) \<and> add_days 4 (2025, 12, 30) = (2026, 1, 3)
   \<and> rotation_index (2025, 12, 30) = 0 \<and> rotation_index (2026, 1, 3) = 3"
proof -
  have four: "add_days 4 dt = next_day (next_day (next_day (next_day dt)))" for dt
    by (simp add: add_days_def numeral_eq_Suc)
  show ?thesis
    unfolding four
    by (simp add: valid_date_def next_day_def rotation_index_def tm_yday_def
        days_in_month_def is_leap_def upt_conv_Cons)
qed

section \<open>The rotation index inside a year\<close>

text \<open>
  Between two consecutive days of the same year the day of the year grows by one, and
  the rotation index advances by one modulo 4. Only the step from 31 December to
  1 January breaks the cycle.
\<close>

lemma tm_yday_next_day:
  assumes "valid_date (y, m, d)" and "fst (next_day (y, m, d)) = y"
  shows "tm_yday (next_day (y, m, d)) = tm_yday (y, m, d) + 1"
proof (cases "d < days_in_month y m")
  case True
  then show ?thesis by (simp add: next_day_def tm_yday_def)
next
  case False
  with assms(1) have d: "d = days_in_month y m" and m1: "1 \<le> m"
    by (simp_all add: valid_date_def)
  from assms(2) False have m: "m < 12"
    by (simp add: next_day_def split: if_splits)
  have "[1..<m + 1] = [1..<m] @ [m]" using m1 by simp
  then show ?thesis using False m by (simp add: next_day_def tm_yday_def d)
qed

lemma rotation_index_next_day:
  assumes "valid_date (y, m, d)" and "fst (next_day (y, m, d)) = y"
  shows "rotation_index (next_day (y, m, d)) = (rotation_index (y, m, d) + 1) mod 4"
  unfolding rotation_index_def tm_yday_next_day [OF assms]
  by (simp add: mod_simps add.commute)

section \<open>The static shift pattern\<close>

lemma digit_values:
  "digit_value CHR ''0'' = 0" "digit_value CHR ''1'' = 1" "digit_value CHR ''2'' = 2"
  "digit_value CHR ''3'' = 3" "digit_value CHR ''4'' = 4" "digit_value CHR ''5'' = 5"
  "digit_value CHR ''6'' = 6" "digit_value CHR ''7'' = 7" "digit_value CHR ''8'' = 8"
  "digit_value CHR ''9'' = 9"
  by (simp_all add: digit_value_def)

text \<open>
  Claim C8. The pattern has 12 entries. Their labels start every two hours from 08:00
  round the clock, each slot ends two hours after it starts, and each slot starts when the
  one before it ends (the first when the last ends): the day is covered without gap or
  overlap. The first four entries are the peak regime, 4 people per counter; the other
  eight are the off-peak regime, 2 per counter, each with exactly one slot key, in the
  order 1, 2, 3, 4, 1, 2, 3, 4.
\<close>

theorem schedule_pattern_shape:
  "length schedule_pattern = 12
   \<and> map (slot_start \<circ> fst) schedule_pattern = map (\<lambda>i. (480 + 120 * i) mod 1440) [0..<12]
   \<and> map (slot_end \<circ> fst) schedule_pattern
       = map (\<lambda>t. (slot_start t + 120) mod 1440) (map fst schedule_pattern)
   \<and> map (slot_start \<circ> fst) (rotate1 schedule_pattern) = map (slot_end \<circ> fst) schedule_pattern
   \<and> map (\<lambda>(t, ks, req). (slot_regime t, req)) schedule_pattern
       = replicate 4 (''(Peak)'', 4) @ replicate 8 (''(Off)'', 2)
   \<and> length (filter (\<lambda>(t, ks, req). req = 4) schedule_pattern) = 4
   \<and> length (filter (\<lambda>(t, ks, req). req = 2) schedule_pattern) = 8
   \<and> map (fst \<circ> snd) (filter (\<lambda>(t, ks, req). req = 2) schedule_pattern)
       = map (\<lambda>k. [k]) (slot_keys @ slot_keys)"
proof -
  have starts: "map (slot_start \<circ> fst) schedule_pattern
      = [480, 600, 720, 840, 960, 1080, 1200, 1320, 0, 120, 240, 360]"
    by (simp add: schedule_pattern_def slot_start_def clock_minutes_def digit_values)
  have ends: "map (slot_end \<circ> fst) schedule_pattern
      = [600, 720, 840, 960, 1080, 1200, 1320, 0, 120, 240, 360, 480]"
    by (simp add: schedule_pattern_def slot_end_def clock_minutes_def digit_values)
  have 1: "length schedule_pattern = 12"
    by (simp add: schedule_pattern_def)
  have 2: "map (slot_start \<circ> fst) schedule_pattern = map (\<lambda>i. (480 + 120 * i) mod 1440) [0..<12]"
    unfolding starts by (simp add: upt_conv_Cons)
  have "map (\<lambda>t. (slot_start t + 120) mod 1440) (map fst schedule_pattern)
      = map (\<lambda>s. (s + 120) mod 1440) (map (slot_start \<circ> fst) schedule_pattern)"
    by simp
  also have "\<dots> = map (slot_end \<circ> fst) schedule_pattern"
    unfolding starts ends by simp
  finally have 3: "map (slot_end \<circ> fst) schedule_pattern
       = map (\<lambda>t. (slot_start t + 120) mod 1440) (map fst schedule_pattern)" by simp
  have "map (slot_start \<circ> fst) (rotate1 schedule_pattern)
      = rotate1 (map (slot_start \<circ> fst) schedule_pattern)"
    by (simp only: rotate1_map)
  also have "\<dots> = map (slot_end \<circ> fst) schedule_pattern"
    unfolding starts ends by simp
  finally have 4: "map (slot_start \<circ> fst) (rotate1 schedule_pattern)
      = map (slot_end \<circ> fst) schedule_pattern" .
  have 5: "map (\<lambda>(t, ks, req). (slot_regime t, req)) schedule_pattern
       = replicate 4 (''(Peak)'', 4) @ replicate 8 (''(Off)'', 2)"
    by (simp add: schedule_pattern_def slot_regime_def numeral_eq_Suc)
  have 6: "length (filter (\<lambda>(t, ks, req). req = 4) schedule_pattern) = 4"
    by (simp add: schedule_pattern_def)
  have 7: "length (filter (\<lambda>(t, ks, req). req = 2) schedule_pattern) = 8"
    by (simp add: schedule_pattern_def)
  have 8: "map (fst \<circ> snd) (filter (\<lambda>(t, ks, req). req = 2) schedule_pattern)
       = map (\<lambda>k. [k]) (slot_keys @ slot_keys)"
    by (simp add: schedule_pattern_def slot_keys_def)
  from 1 2 3 4 5 6 7 8 show ?thesis by blast
qed

section \<open>The loop over the counters\<close>

lemma bind_result_Inr [simp]: "bind_result (Inr x) f = f x"
  by (simp add: bind_result_def)

lemma bind_result_Inl [simp]: "bind_result (Inl e) f = Inl e"
  by (simp add: bind_result_def)

lemma fold_result_append:
  "fold_result f (xs @ ys) s = bind_result (fold_result f xs s) (fold_result f ys)"
proof (induction xs arbitrary: s)
  case Nil
  show ?case by simp
next
  case (Cons x xs)
  show ?case
  proof (cases "f x s")
    case (Inl e)
    then show ?thesis by simp
  next
    case (Inr s')
    then show ?thesis by (simp add: Cons.IH)
  qed
qed

lemma counter_loop:
  assumes "n \<le> length assignments"
  shows "fold_result (counter_step pool req time_slot) [0..<n] (assignments, 0) =
         Inr (map (\<lambda>i. if i < n
                         then AList.update time_slot (names_str (counter_slice pool req i))
                                (assignments ! i)
                         else assignments ! i) [0..<length assignments],
              int n * req)"
  using assms
proof (induction n)
  case 0
  show ?case by (simp add: map_nth)
next
  case (Suc n)
  let ?A = "map (\<lambda>i. if i < n
                 then AList.update time_slot (names_str (counter_slice pool req i))
                        (assignments ! i)
                 else assignments ! i) [0..<length assignments]"
  from Suc.prems have n: "n < length assignments" by simp
  have IH: "fold_result (counter_step pool req time_slot) [0..<n] (assignments, 0)
          = Inr (?A, int n * req)"
    using Suc.IH n by simp
  have step: "counter_step pool req time_slot n (?A, int n * req) =
      Inr (?A[n := AList.update time_slot (names_str (counter_slice pool req n)) (assignments ! n)],
           int n * req + req)"
    using n by (simp add: counter_step_def counter_slice_def Let_def)
  have upd: "?A[n := AList.update time_slot (names_str (counter_slice pool req n)) (assignments ! n)]
      = map (\<lambda>i. if i < Suc n
                 then AList.update time_slot (names_str (counter_slice pool req i))
                        (assignments ! i)
                 else assignments ! i) [0..<length assignments]"
    by (rule nth_equalityI) (auto simp add: nth_list_update less_Suc_eq)
  have idx: "int n * req + req = int (Suc n) * req"
    by (simp add: algebra_simps)
  show ?case
    by (simp only: upt_Suc_append [OF le0] fold_result_append IH bind_result_Inr
        fold_result.simps step upd idx)
qed

lemma counter_slice_nonneg:
  assumes "0 \<le> req"
  shows "counter_slice pool req i = take (nat req) (drop (i * nat req) pool)"
proof -
  have a: "0 \<le> int i * req" using assms by simp
  have n: "nat (int i * req) = i * nat req"
    using assms by (simp add: nat_mult_distrib)
  have "nat (int i * req + req) = nat (int i * req) + nat req"
    using assms a by (simp add: nat_add_distrib)
  then have d: "nat (int i * req + req) - i * nat req = nat req"
    by (simp add: n)
  have "py_slice pool (int i * req) (int i * req + req)
      = take (nat (int i * req + req) - nat (int i * req)) (drop (nat (int i * req)) pool)"
    by (rule py_slice_nonneg) (use assms a in simp_all)
  then show ?thesis
    unfolding counter_slice_def by (simp only: n d)
qed

lemma concat_chunks:
  "concat (map (\<lambda>i. take k (drop (i * k) xs)) [0..<n]) = take (n * k) xs"
proof (induction n)
  case 0
  show ?case by simp
next
  case (Suc n)
  have "take (n * k) xs @ take k (drop (n * k) xs) = take (n * k + k) xs"
    by (simp add: take_add)
  with Suc show ?case by (simp add: add.commute)
qed

lemma reserve_slice_nonneg:
  assumes "0 \<le> req"
  shows "reserve_slice pool req = drop (counters * nat req) pool"
  using assms by (simp add: reserve_slice_def py_slice_from_nonneg nat_mult_distrib)

lemma slices_partition:
  assumes "0 \<le> req"
  shows "concat (map (counter_slice pool req) [0..<counters]) @ reserve_slice pool req = pool"
proof -
  have "counter_slice pool req = (\<lambda>i. take (nat req) (drop (i * nat req) pool))"
    using assms by (simp add: counter_slice_nonneg fun_eq_iff)
  then show ?thesis
    by (simp only: concat_chunks reserve_slice_nonneg [OF assms] append_take_drop_id)
qed

lemma slot_step_closed:
  assumes "slot_pool cohort_data keys = Inr pool" and "length assignments = counters"
  shows "slot_step cohort_data (time_slot, keys, req) (assignments, reserves_log) =
     Inr (map (\<lambda>i. AList.update time_slot (names_str (counter_slice pool req i)) (assignments ! i))
            [0..<counters],
          if reserve_slice pool req \<noteq> []
          then reserves_log @ [(time_slot, names_of (reserve_slice pool req))]
          else reserves_log)"
proof -
  have "fold_result (counter_step pool req time_slot) [0..<counters] (assignments, 0) =
     Inr (map (\<lambda>i. if i < counters
                     then AList.update time_slot (names_str (counter_slice pool req i))
                            (assignments ! i)
                     else assignments ! i) [0..<length assignments],
          int counters * req)"
    by (rule counter_loop) (simp add: assms)
  also have "map (\<lambda>i. if i < counters
                     then AList.update time_slot (names_str (counter_slice pool req i))
                            (assignments ! i)
                     else assignments ! i) [0..<length assignments]
     = map (\<lambda>i. AList.update time_slot (names_str (counter_slice pool req i)) (assignments ! i))
            [0..<counters]"
    by (simp add: assms)
  finally show ?thesis
    by (simp add: slot_step_def assms reserve_slice_def Let_def)
qed

lemma length_master_list: "length (master_list N) = nat N"
  by (simp add: master_list_def)

lemma master_list_nth:
  assumes "int i < N"
  shows "master_list N ! i = \<lparr>id_str = ''V-'' @ py_str (int i + 1), id_num = int i + 1\<rparr>"
proof -
  have "[1..N] ! i = 1 + int i"
    by (rule nth_upto) (use assms in linarith)
  moreover have "i < length [1..N]" using assms by simp
  ultimately show ?thesis by (simp add: master_list_def add.commute)
qed

text \<open>
  Claim C2. Take any slot \<open>(time_slot, keys, req)\<close> with \<open>req \<ge> 0\<close> whose merge and sort
  produce \<open>pool\<close>, and a table that has its \<open>counters = 30\<close> rows. The loop body for the
  slot does not fail; it stores in row \<open>i\<close>, under the slot's label, the text of exactly
  \<^verbatim>\<open>pool[i*req : i*req + req]\<close>, and logs the text of exactly \<^verbatim>\<open>pool[30*req :]\<close> when
  that is not empty. The slice of counter \<open>i\<close> is the \<open>req\<close> volunteers of the pool from
  position \<open>i * req\<close> on, fewer or none where the pool ends, and its text is their display
  ids joined by \<^verbatim>\<open>", "\<close> (the marker when there is none); the reserves are the pool from
  position \<open>30 * req\<close> on. The 30 slices followed by the reserves are the pool itself, in
  order, so their lengths add up to the size of the pool.
\<close>

theorem counter_slices:
  assumes "0 \<le> req"
    and "slot_pool cohort_data keys = Inr pool"
    and "length assignments = counters"
  shows "counters = 30
     \<and> slot_step cohort_data (time_slot, keys, req) (assignments, reserves_log) =
        Inr (map (\<lambda>i. AList.update time_slot (names_str (py_slice pool (int i * req) (int i * req + req)))
                        (assignments ! i)) [0..<30],
             if py_slice_from pool (30 * req) \<noteq> []
             then reserves_log @ [(time_slot, names_of (py_slice_from pool (30 * req)))]
             else reserves_log)
     \<and> (\<forall>i<30.
            py_slice pool (int i * req) (int i * req + req) = take (nat req) (drop (i * nat req) pool)
          \<and> length (py_slice pool (int i * req) (int i * req + req))
              = min (nat req) (length pool - i * nat req)
          \<and> names_str (py_slice pool (int i * req) (int i * req + req))
              = (if take (nat req) (drop (i * nat req) pool) = [] then empty_marker
                 else join '', '' (map id_str (take (nat req) (drop (i * nat req) pool)))))
     \<and> py_slice_from pool (30 * req) = drop (30 * nat req) pool
     \<and> length (py_slice_from pool (30 * req)) = length pool - 30 * nat req
     \<and> names_of (py_slice_from pool (30 * req))
         = join '', '' (map id_str (drop (30 * nat req) pool))
     \<and> concat (map (\<lambda>i. py_slice pool (int i * req) (int i * req + req)) [0..<30])
         @ py_slice_from pool (30 * req) = pool
     \<and> sum_list (map (\<lambda>i. length (py_slice pool (int i * req) (int i * req + req))) [0..<30])
         + length (py_slice_from pool (30 * req)) = length pool"
proof -
  have c: "counters = 30" by (simp add: counters_def)
  have cs: "counter_slice pool req = (\<lambda>i. py_slice pool (int i * req) (int i * req + req))"
    by (simp add: counter_slice_def fun_eq_iff)
  have rs: "reserve_slice pool req = py_slice_from pool (30 * req)"
    by (simp add: reserve_slice_def c)
  have 1: "slot_step cohort_data (time_slot, keys, req) (assignments, reserves_log) =
        Inr (map (\<lambda>i. AList.update time_slot (names_str (py_slice pool (int i * req) (int i * req + req)))
                        (assignments ! i)) [0..<30],
             if py_slice_from pool (30 * req) \<noteq> []
             then reserves_log @ [(time_slot, names_of (py_slice_from pool (30 * req)))]
             else reserves_log)"
    using slot_step_closed [OF assms(2,3), of time_slot req reserves_log]
    unfolding cs rs c .
  have 2: "concat (map (\<lambda>i. py_slice pool (int i * req) (int i * req + req)) [0..<30])
         @ py_slice_from pool (30 * req) = pool"
    using slices_partition [OF assms(1), of pool] unfolding cs rs c .
  have "length (concat (map (\<lambda>i. py_slice pool (int i * req) (int i * req + req)) [0..<30])
         @ py_slice_from pool (30 * req)) = length pool"
    by (simp only: 2)
  then have 3: "sum_list (map (\<lambda>i. length (py_slice pool (int i * req) (int i * req + req))) [0..<30])
         + length (py_slice_from pool (30 * req)) = length pool"
    by (simp add: length_concat comp_def)
  have sl: "py_slice pool (int i * req) (int i * req + req)
      = take (nat req) (drop (i * nat req) pool)" for i
    using counter_slice_nonneg [OF assms(1), of pool i] by (simp only: counter_slice_def)
  have 4: "\<forall>i<30.
            py_slice pool (int i * req) (int i * req + req) = take (nat req) (drop (i * nat req) pool)
          \<and> length (py_slice pool (int i * req) (int i * req + req))
              = min (nat req) (length pool - i * nat req)
          \<and> names_str (py_slice pool (int i * req) (int i * req + req))
              = (if take (nat req) (drop (i * nat req) pool) = [] then empty_marker
                 else join '', '' (map id_str (take (nat req) (drop (i * nat req) pool))))"
    by (simp add: sl names_str_def names_of_def min.commute)
  have 5: "py_slice_from pool (30 * req) = drop (30 * nat req) pool"
    using reserve_slice_nonneg [OF assms(1), of pool] by (simp only: rs c)
  have 6: "length (py_slice_from pool (30 * req)) = length pool - 30 * nat req"
    by (simp add: 5)
  have 7: "names_of (py_slice_from pool (30 * req))
         = join '', '' (map id_str (drop (30 * nat req) pool))"
    by (simp add: 5 names_of_def)
  from c 1 2 3 4 5 6 7 show ?thesis by blast
qed

theorem counter_slices_witness:
  "(0::int) \<le> 1
   \<and> slot_pool [''1'' \<mapsto> master_list 31] [''1''] = Inr (master_list 31)
   \<and> length (replicate counters ([] :: row)) = counters
   \<and> slot_step [''1'' \<mapsto> master_list 31] (''16:00 - 18:00 (Off)'', [''1''], 1)
         (replicate counters [], [])
       = Inr (map (\<lambda>i. [(''16:00 - 18:00 (Off)'', ''V-'' @ py_str (int i + 1))]) [0..<30],
              [(''16:00 - 18:00 (Off)'', ''V-31'')])
   \<and> map (\<lambda>i. ''V-'' @ py_str (int i + 1)) [0, 1, 29] = [''V-1'', ''V-2'', ''V-30'']"
proof -
  let ?ts = "''16:00 - 18:00 (Off)''"
  let ?pool = "master_list 31"
  have h1: "(0::int) \<le> 1" by simp
  have "sort_key id_num ?pool = ?pool"
    by (rule sort_key_id_if_sorted) (simp add: map_id_num_master_list)
  then have h2: "slot_pool [''1'' \<mapsto> ?pool] [''1''] = Inr ?pool"
    by (simp add: slot_pool_def merge_step_def)
  have h3: "length (replicate counters ([] :: row)) = counters" by simp
  note th = counter_slices [OF h1 h2 h3, of ?ts "[]"]
  have step: "slot_step [''1'' \<mapsto> ?pool] (?ts, [''1''], 1) (replicate counters [], []) =
        Inr (map (\<lambda>i. AList.update ?ts (names_str (py_slice ?pool (int i * 1) (int i * 1 + 1)))
                        (replicate counters [] ! i)) [0..<30],
             if py_slice_from ?pool (30 * 1) \<noteq> []
             then [] @ [(?ts, names_of (py_slice_from ?pool (30 * 1)))]
             else [])"
    using th by (elim conjE)
  have sl: "\<forall>i<30.
            py_slice ?pool (int i * 1) (int i * 1 + 1) = take (nat 1) (drop (i * nat 1) ?pool)
          \<and> length (py_slice ?pool (int i * 1) (int i * 1 + 1))
              = min (nat 1) (length ?pool - i * nat 1)
          \<and> names_str (py_slice ?pool (int i * 1) (int i * 1 + 1))
              = (if take (nat 1) (drop (i * nat 1) ?pool) = [] then empty_marker
                 else join '', '' (map id_str (take (nat 1) (drop (i * nat 1) ?pool))))"
    using th by (elim conjE)
  have rs: "py_slice_from ?pool (30 * 1) = drop (30 * nat 1) ?pool"
    using th by (elim conjE)
  have one: "take (nat 1) (drop (i * nat 1) ?pool)
      = [\<lparr>id_str = ''V-'' @ py_str (int i + 1), id_num = int i + 1\<rparr>]" if "i < 31" for i
  proof -
    from that have "i < length ?pool" by (simp add: length_master_list)
    then have "drop i ?pool = ?pool ! i # drop (Suc i) ?pool"
      by (rule Cons_nth_drop_Suc [symmetric])
    moreover from that have "?pool ! i = \<lparr>id_str = ''V-'' @ py_str (int i + 1), id_num = int i + 1\<rparr>"
      by (intro master_list_nth) simp
    ultimately show ?thesis by simp
  qed
  have cellv: "names_str (py_slice ?pool (int i * 1) (int i * 1 + 1)) = ''V-'' @ py_str (int i + 1)"
    if "i < 30" for i
  proof -
    from that have "i < 31" by simp
    then have "take (nat 1) (drop (i * nat 1) ?pool)
        = [\<lparr>id_str = ''V-'' @ py_str (int i + 1), id_num = int i + 1\<rparr>]"
      by (rule one)
    moreover from sl that have "py_slice ?pool (int i * 1) (int i * 1 + 1)
        = take (nat 1) (drop (i * nat 1) ?pool)"
      by blast
    ultimately have "py_slice ?pool (int i * 1) (int i * 1 + 1)
        = [\<lparr>id_str = ''V-'' @ py_str (int i + 1), id_num = int i + 1\<rparr>]"
      by (rule trans [rotated])
    then show ?thesis by (simp add: names_str_def names_of_def)
  qed
  have rows: "map (\<lambda>i. AList.update ?ts (names_str (py_slice ?pool (int i * 1) (int i * 1 + 1)))
                        (replicate counters [] ! i)) [0..<30]
      = map (\<lambda>i. [(?ts, ''V-'' @ py_str (int i + 1))]) [0..<30]"
  proof (rule map_cong [OF refl])
    fix i assume "i \<in> set [0..<30]"
    then have i: "i < 30" by simp
    then have "replicate counters ([] :: row) ! i = []" by (simp add: counters_def)
    with cellv [OF i]
    show "AList.update ?ts (names_str (py_slice ?pool (int i * 1) (int i * 1 + 1)))
                        (replicate counters [] ! i) = [(?ts, ''V-'' @ py_str (int i + 1))]"
      by simp
  qed
  have "drop 30 ?pool = take (nat 1) (drop (30 * nat 1) ?pool)"
    by (simp add: length_master_list)
  also have "\<dots> = [\<lparr>id_str = ''V-'' @ py_str (int 30 + 1), id_num = int 30 + 1\<rparr>]"
    by (rule one) simp
  finally have res: "py_slice_from ?pool (30 * 1) = [\<lparr>id_str = ''V-31'', id_num = 31\<rparr>]"
    using rs by (simp add: py_str_def str_nat.simps)
  have 4: "slot_step [''1'' \<mapsto> ?pool] (?ts, [''1''], 1) (replicate counters [], [])
       = Inr (map (\<lambda>i. [(?ts, ''V-'' @ py_str (int i + 1))]) [0..<30], [(?ts, ''V-31'')])"
    unfolding step rows res by (simp add: names_of_def)
  have 5: "map (\<lambda>i. ''V-'' @ py_str (int i + 1)) [0, 1, 29] = [''V-1'', ''V-2'', ''V-30'']"
    by (simp add: py_str_def str_nat.simps)
  from h1 h2 h3 4 5 show ?thesis by blast
qed

section \<open>The shift pool\<close>

lemma length_groups_of: "length (groups_of N) = 4"
  by (simp add: groups_of_def Let_def)

lemma concat_groups_of: "concat (groups_of N) = master_list N"
proof (cases "1 \<le> N")
  case True
  then show ?thesis by (simp add: groups_of_chunks Let_def take_drop_chunks)
next
  case False
  then have "master_list N = []" by (simp add: master_list_def)
  then show ?thesis
    by (simp add: groups_of_def Let_def py_slice_def py_slice_from_def)
qed

lemma generate_schedule_closed:
  "generate_schedule N r = Inr (map_of (zip slot_keys (rotated_groups (groups_of N) r)))"
proof -
  have "length (rotated_groups (groups_of N) r) = 4"
    by (simp add: length_rotated_groups length_groups_of)
  then obtain a b c d where "rotated_groups (groups_of N) r = [a, b, c, d]"
    by (rule length4E)
  then show ?thesis by (simp only: generate_schedule_def cohort_map_four)
qed

lemma cohorts_of_slot_keys:
  assumes "length rg = 4"
  shows "map (\<lambda>k. the (map_of (zip slot_keys rg) k)) slot_keys = rg"
proof -
  from assms obtain a b c d where "rg = [a, b, c, d]" by (rule length4E)
  then show ?thesis by (simp add: slot_keys_def)
qed

lemma dom_cohort_map:
  assumes "length rg = 4"
  shows "dom (map_of (zip slot_keys rg)) = set slot_keys"
  using assms by (simp add: dom_map_of_zip slot_keys_def)

lemma mset_rotated_groups: "mset (rotated_groups gs r) = mset gs"
proof -
  have "mset (drop n gs @ take n gs) = mset (take n gs @ drop n gs)" for n
    by (simp only: mset_append add.commute)
  then show ?thesis
    by (simp add: rotated_groups_def py_slice_from_def py_slice_to_def)
qed

lemma mset_concat_cong:
  assumes "mset xss = mset yss"
  shows "mset (concat xss) = mset (concat yss)"
proof -
  have "mset (concat zss) = sum_mset (image_mset mset (mset zss))" for zss :: "'a list list"
    by (simp add: mset_concat flip: sum_mset_sum_list)
  then show ?thesis by (simp add: assms)
qed

lemma merge_loop:
  assumes "set keys \<subseteq> dom cohort_data"
  shows "fold_result (merge_step cohort_data) keys pool =
         Inr (pool @ concat (map (\<lambda>k. the (cohort_data k)) keys))"
  using assms
proof (induction keys arbitrary: pool)
  case Nil
  show ?case by simp
next
  case (Cons key keys)
  from Cons.prems obtain g where g: "cohort_data key = Some g" by auto
  from Cons.prems have "set keys \<subseteq> dom cohort_data" by simp
  with Cons.IH g show ?case by (simp add: merge_step_def)
qed

lemma slot_pool_closed:
  assumes "set keys \<subseteq> dom cohort_data"
  shows "slot_pool cohort_data keys = Inr (shift_pool cohort_data keys)"
  by (simp add: slot_pool_def merge_loop [OF assms] shift_pool_def)

text \<open>The cohorts of distinct slot keys never share an identifier.\<close>

lemma merged_ids_distinct:
  assumes "distinct keys" and "set keys \<subseteq> set slot_keys"
  shows "distinct (map id_num (concat (map (\<lambda>k. the (map_of (zip slot_keys
           (rotated_groups (groups_of N) r)) k)) keys)))"
proof -
  let ?rg = "rotated_groups (groups_of N) r"
  let ?f = "\<lambda>k. the (map_of (zip slot_keys ?rg) k)"
  have len: "length ?rg = 4" by (simp add: length_rotated_groups length_groups_of)
  have "mset keys = mset_set (set keys)"
    using assms(1) by (simp add: mset_set_set)
  also have "\<dots> \<subseteq># mset_set (set slot_keys)"
    using assms(2) by (intro subset_imp_msubset_mset_set) simp_all
  also have "\<dots> = mset slot_keys"
    by (rule mset_set_set) (simp add: slot_keys_def)
  finally have "image_mset ?f (mset keys) \<subseteq># image_mset ?f (mset slot_keys)"
    by (rule image_mset_subseteq_mono)
  then have "mset (map ?f keys) \<subseteq># mset ?rg"
    using cohorts_of_slot_keys [OF len] by (metis mset_map)
  then obtain C where "mset ?rg = mset (map ?f keys) + C"
    by (auto simp add: mset_subset_eq_exists_conv)
  moreover obtain zs where "mset zs = C" using ex_mset by blast
  ultimately have "mset (map ?f keys @ zs) = mset (groups_of N)"
    by (simp add: mset_rotated_groups)
  then have "mset (concat (map ?f keys @ zs)) = mset (concat (groups_of N))"
    by (rule mset_concat_cong)
  then have "mset (map id_num (concat (map ?f keys @ zs))) = mset (map id_num (master_list N))"
    by (simp only: mset_map concat_groups_of)
  then have "distinct (map id_num (concat (map ?f keys @ zs)))
             \<longleftrightarrow> distinct (map id_num (master_list N))"
    by (rule mset_eq_imp_distinct_iff)
  then have "distinct (map id_num (concat (map ?f keys @ zs)))"
    by (simp only: map_id_num_master_list distinct_upto)
  then show ?thesis by simp
qed

lemma shift_pool_strict:
  assumes "distinct (map id_num (concat (map (\<lambda>k. the (cohort_data k)) keys)))"
  shows "sorted_wrt (<) (map id_num (shift_pool cohort_data keys))"
proof -
  let ?xs = "concat (map (\<lambda>k. the (cohort_data k)) keys)"
  have "mset (map id_num (sort_key id_num ?xs)) = mset (map id_num ?xs)"
    by simp
  then have "distinct (map id_num (sort_key id_num ?xs)) \<longleftrightarrow> distinct (map id_num ?xs)"
    by (rule mset_eq_imp_distinct_iff)
  with assms have "distinct (map id_num (sort_key id_num ?xs))"
    by simp
  moreover have "sorted (map id_num (sort_key id_num ?xs))"
    by (rule sorted_sort_key)
  ultimately show ?thesis
    by (simp only: shift_pool_def strict_sorted_iff)
qed

lemma pattern_keys:
  "list_all (\<lambda>(t, ks, req). distinct ks \<and> set ks \<subseteq> set slot_keys \<and> 0 \<le> req) schedule_pattern"
  by (simp add: schedule_pattern_def slot_keys_def)

text \<open>
  Claim C3. For every volunteer count and rotation argument, and every list of distinct
  slot keys in any order (the active keys of each pattern entry are such a list), the
  merge does not fail and the pool it produces is strictly ascending by \<open>id_num\<close>; the pool
  holds exactly the members of the named cohorts, so its size is the sum of their sizes.
\<close>

theorem shift_pool_sorted:
  assumes "distinct keys" and "set keys \<subseteq> set slot_keys"
  shows "\<exists>cohort_data pool.
       generate_schedule N r = Inr cohort_data
     \<and> slot_pool cohort_data keys = Inr pool
     \<and> sorted_wrt (<) (map id_num pool)
     \<and> mset pool = mset (concat (map (\<lambda>k. the (cohort_data k)) keys))
     \<and> length pool = sum_list (map (\<lambda>k. length (the (cohort_data k))) keys)"
proof -
  let ?cd = "map_of (zip slot_keys (rotated_groups (groups_of N) r))"
  have len: "length (rotated_groups (groups_of N) r) = 4"
    by (simp add: length_rotated_groups length_groups_of)
  have dom: "set keys \<subseteq> dom ?cd"
    using assms(2) by (simp only: dom_cohort_map [OF len])
  have 1: "generate_schedule N r = Inr ?cd" by (rule generate_schedule_closed)
  have 2: "slot_pool ?cd keys = Inr (shift_pool ?cd keys)"
    using dom by (rule slot_pool_closed)
  have 3: "sorted_wrt (<) (map id_num (shift_pool ?cd keys))"
    by (rule shift_pool_strict) (rule merged_ids_distinct [OF assms])
  have 4: "mset (shift_pool ?cd keys) = mset (concat (map (\<lambda>k. the (?cd k)) keys))"
    by (simp add: shift_pool_def)
  have "length (shift_pool ?cd keys) = length (concat (map (\<lambda>k. the (?cd k)) keys))"
    by (simp add: shift_pool_def)
  then have 5: "length (shift_pool ?cd keys) = sum_list (map (\<lambda>k. length (the (?cd k))) keys)"
    by (simp add: length_concat comp_def)
  from 1 2 3 4 5 show ?thesis by blast
qed

theorem shift_pool_sorted_witness:
  "distinct [''3'', ''1''] \<and> set [''3'', ''1''] \<subseteq> set slot_keys
   \<and> (\<exists>cohort_data pool.
       generate_schedule 8 1 = Inr cohort_data
     \<and> slot_pool cohort_data [''3'', ''1''] = Inr pool
     \<and> sorted_wrt (<) (map id_num pool)
     \<and> mset pool = mset (concat (map (\<lambda>k. the (cohort_data k)) [''3'', ''1'']))
     \<and> length pool = sum_list (map (\<lambda>k. length (the (cohort_data k))) [''3'', ''1'']))"
proof -
  have h1: "distinct [''3'', ''1'']" by simp
  have h2: "set [''3'', ''1''] \<subseteq> set slot_keys" by (simp add: slot_keys_def)
  from h1 h2 shift_pool_sorted [OF h1 h2, of 8 1] show ?thesis by blast
qed

section \<open>The loop over the pattern and the assembled table\<close>

lemma update_fresh: "k \<notin> fst ` set al \<Longrightarrow> AList.update k v al = al @ [(k, v)]"
  by (induction al) auto

lemma fold_update_fresh:
  assumes "distinct (map fst al)" and "fst ` set acc \<inter> fst ` set al = {}"
  shows "fold (\<lambda>(k, v). AList.update k v) al acc = acc @ al"
  using assms
proof (induction al arbitrary: acc)
  case Nil
  show ?case by simp
next
  case (Cons kv al)
  obtain k v where kv: "kv = (k, v)" by (cases kv)
  from Cons.prems have fresh: "k \<notin> fst ` set acc" by (auto simp add: kv)
  have "fold (\<lambda>(k, v). AList.update k v) al (acc @ [(k, v)]) = (acc @ [(k, v)]) @ al"
  proof (rule Cons.IH)
    show "distinct (map fst al)" using Cons.prems by simp
    show "fst ` set (acc @ [(k, v)]) \<inter> fst ` set al = {}"
      using Cons.prems by (auto simp add: kv)
  qed
  then show ?case by (simp add: kv update_fresh [OF fresh])
qed

lemma pattern_loop:
  assumes "length assignments = counters"
    and "list_all (\<lambda>(ts, keys, req). set keys \<subseteq> dom cohort_data) pat"
    and "distinct (map fst pat)"
    and "\<forall>i<counters. fst ` set (assignments ! i) \<inter> fst ` set pat = {}"
  shows "fold_result (slot_step cohort_data) pat (assignments, reserves_log) =
     Inr (map (\<lambda>i. assignments ! i @ cells_of cohort_data i pat) [0..<counters],
          reserves_log @ reserves_of cohort_data pat)"
  using assms
proof (induction pat arbitrary: assignments reserves_log)
  case Nil
  have "map (\<lambda>i. assignments ! i) [0..<length assignments] = assignments"
    by (rule map_nth)
  then show ?case by (simp add: cells_of_def reserves_of_def Nil.prems(1))
next
  case (Cons e pat)
  obtain ts keys req where e: "e = (ts, keys, req)" by (cases e)
  let ?pool = "shift_pool cohort_data keys"
  let ?asg = "map (\<lambda>i. assignments ! i @ [(ts, names_str (counter_slice ?pool req i))])
                [0..<counters]"
  let ?log = "reserves_log @ reserves_of cohort_data [e]"
  from Cons.prems(2) have keys: "set keys \<subseteq> dom cohort_data" by (simp add: e)
  have fresh: "ts \<notin> fst ` set (assignments ! i)" if "i < counters" for i
    using Cons.prems(4) that by (auto simp add: e)
  have "slot_step cohort_data e (assignments, reserves_log) =
     Inr (map (\<lambda>i. AList.update ts (names_str (counter_slice ?pool req i)) (assignments ! i))
            [0..<counters],
          if reserve_slice ?pool req \<noteq> []
          then reserves_log @ [(ts, names_of (reserve_slice ?pool req))]
          else reserves_log)"
    unfolding e by (rule slot_step_closed [OF slot_pool_closed [OF keys] Cons.prems(1)])
  also have "map (\<lambda>i. AList.update ts (names_str (counter_slice ?pool req i)) (assignments ! i))
            [0..<counters] = ?asg"
    by (simp add: update_fresh fresh)
  also have "(if reserve_slice ?pool req \<noteq> []
          then reserves_log @ [(ts, names_of (reserve_slice ?pool req))]
          else reserves_log) = ?log"
    by (simp add: reserves_of_def e)
  finally have step: "slot_step cohort_data e (assignments, reserves_log) = Inr (?asg, ?log)" .
  have IH: "fold_result (slot_step cohort_data) pat (?asg, ?log) =
     Inr (map (\<lambda>i. ?asg ! i @ cells_of cohort_data i pat) [0..<counters],
          ?log @ reserves_of cohort_data pat)"
  proof (rule Cons.IH)
    show "length ?asg = counters" by simp
    show "list_all (\<lambda>(ts, keys, req). set keys \<subseteq> dom cohort_data) pat"
      using Cons.prems(2) by simp
    show "distinct (map fst pat)" using Cons.prems(3) by simp
    show "\<forall>i<counters. fst ` set (?asg ! i) \<inter> fst ` set pat = {}"
      using Cons.prems(3,4) by (auto simp add: e)
  qed
  have rows: "map (\<lambda>i. ?asg ! i @ cells_of cohort_data i pat) [0..<counters]
      = map (\<lambda>i. assignments ! i @ cells_of cohort_data i (e # pat)) [0..<counters]"
    by (simp add: cells_of_def e)
  have log: "?log @ reserves_of cohort_data pat = reserves_log @ reserves_of cohort_data (e # pat)"
    by (simp add: reserves_of_def)
  show ?case
    by (simp only: fold_result.simps step bind_result_Inr IH rows log)
qed

lemma pattern_labels:
  "distinct (map fst schedule_pattern)" "''Counter'' \<notin> fst ` set schedule_pattern"
  by (simp_all add: schedule_pattern_def)

lemma pattern_keys_dom:
  assumes "dom cohort_data = set slot_keys"
  shows "list_all (\<lambda>(ts, keys, req). set keys \<subseteq> dom cohort_data) schedule_pattern"
  unfolding assms by (simp add: schedule_pattern_def slot_keys_def)

lemma build_assignments_closed:
  assumes "dom cohort_data = set slot_keys"
  shows "build_assignments cohort_data =
     Inr (map (\<lambda>i. cells_of cohort_data i schedule_pattern) [0..<counters],
          reserves_of cohort_data schedule_pattern)"
proof -
  have "fold_result (slot_step cohort_data) schedule_pattern (replicate counters [], []) =
     Inr (map (\<lambda>i. replicate counters [] ! i @ cells_of cohort_data i schedule_pattern)
            [0..<counters],
          [] @ reserves_of cohort_data schedule_pattern)"
    by (rule pattern_loop) (simp_all add: pattern_labels pattern_keys_dom [OF assms])
  then show ?thesis by (simp add: build_assignments_def)
qed

lemma table_loop:
  assumes "n \<le> length assignments" and "\<forall>i<n. table_row assignments i = Inr (h i)"
  shows "fold_result (\<lambda>i rows. bind_result (table_row assignments i) (\<lambda>row. Inr (rows @ [row])))
           [0..<n] [] = Inr (map h [0..<n])"
  using assms
proof (induction n)
  case 0
  show ?case by simp
next
  case (Suc n)
  then show ?case by (simp add: fold_result_append)
qed

lemma final_table_data_closed:
  "final_table_data (map (\<lambda>i. cells_of cohort_data i schedule_pattern) [0..<counters]) =
     Inr (map (\<lambda>i. (''Counter'', counter_label i) # cells_of cohort_data i schedule_pattern)
            [0..<counters])"
proof -
  let ?asg = "map (\<lambda>i. cells_of cohort_data i schedule_pattern) [0..<counters]"
  have keys: "map fst (cells_of cohort_data i schedule_pattern) = map fst schedule_pattern" for i
    by (simp add: cells_of_def comp_def case_prod_unfold)
  have row: "table_row ?asg i =
       Inr ((''Counter'', counter_label i) # cells_of cohort_data i schedule_pattern)"
    if "i < counters" for i
  proof -
    have "fold (\<lambda>(k, v). AList.update k v) (cells_of cohort_data i schedule_pattern)
            [(''Counter'', counter_label i)]
        = [(''Counter'', counter_label i)] @ cells_of cohort_data i schedule_pattern"
    proof (rule fold_update_fresh)
      show "distinct (map fst (cells_of cohort_data i schedule_pattern))"
        by (simp only: keys pattern_labels)
      have "fst ` set (cells_of cohort_data i schedule_pattern) = fst ` set schedule_pattern"
        using keys [of i] by (metis set_map)
      then show "fst ` set [(''Counter'', counter_label i)]
            \<inter> fst ` set (cells_of cohort_data i schedule_pattern) = {}"
        using pattern_labels(2) by simp
    qed
    with that show ?thesis by (simp add: table_row_def)
  qed
  have "fold_result (\<lambda>i rows. bind_result (table_row ?asg i) (\<lambda>row. Inr (rows @ [row])))
           [0..<counters] []
      = Inr (map (\<lambda>i. (''Counter'', counter_label i) # cells_of cohort_data i schedule_pattern)
               [0..<counters])"
    by (rule table_loop) (simp_all add: row)
  then show ?thesis by (simp only: final_table_data_def)
qed

lemma build_schedule_closed:
  "build_schedule N r =
     Inr (map (\<lambda>i. (''Counter'', counter_label i)
                  # cells_of (map_of (zip slot_keys (rotated_groups (groups_of N) r))) i
                      schedule_pattern) [0..<counters],
          reserves_of (map_of (zip slot_keys (rotated_groups (groups_of N) r))) schedule_pattern)"
proof -
  have len: "length (rotated_groups (groups_of N) r) = 4"
    by (simp add: length_rotated_groups length_groups_of)
  show ?thesis
    by (simp add: build_schedule_def generate_schedule_closed
        build_assignments_closed [OF dom_cohort_map [OF len]] final_table_data_closed)
qed

section \<open>Rendering and splitting identifiers\<close>

lemma digit_char_cases:
  assumes "d < 10"
  obtains "d = 0" | "d = 1" | "d = 2" | "d = 3" | "d = 4" | "d = 5" | "d = 6" | "d = 7"
    | "d = 8" | "d = (9::nat)"
proof -
  from assms have "d \<in> set [0..<10]" by simp
  also have "set [0..<10] = {0, 1, 2, 3, 4, 5, 6, 7, 8, 9::nat}"
    by (simp add: upt_conv_Cons eval_nat_numeral)
  finally show thesis using that by blast
qed

lemma digit_value_nth: "d < 10 \<Longrightarrow> digit_value (''0123456789'' ! d) = d"
  by (erule digit_char_cases) (simp_all add: digit_values)

lemma digit_nth_mem: "d < 10 \<Longrightarrow> ''0123456789'' ! d \<in> set ''0123456789''"
  by (rule nth_mem) simp

lemma str_nat_digits: "set (str_nat n) \<subseteq> set ''0123456789''"
proof (induction n rule: str_nat.induct)
  case (1 n)
  show ?case
  proof (cases "n < 10")
    case True
    with digit_nth_mem [of n] show ?thesis by (subst str_nat.simps) simp
  next
    case False
    have "n mod 10 < 10" by simp
    from digit_nth_mem [OF this] 1 [OF False] False show ?thesis
      by (subst str_nat.simps) simp
  qed
qed

lemma str_nat_value: "foldl (\<lambda>a c. 10 * a + digit_value c) 0 (str_nat n) = n"
proof (induction n rule: str_nat.induct)
  case (1 n)
  show ?case
  proof (cases "n < 10")
    case True
    then show ?thesis by (subst str_nat.simps) (simp add: digit_value_nth)
  next
    case False
    with 1 [OF False] show ?thesis
      by (subst str_nat.simps) (simp add: digit_value_nth)
  qed
qed

lemma str_nat_inj: "str_nat a = str_nat b \<Longrightarrow> a = b"
  by (metis str_nat_value)

lemma py_str_nonneg: "0 \<le> i \<Longrightarrow> py_str i = str_nat (nat i)"
  by (simp add: py_str_def)

lemma py_str_inj:
  assumes "0 \<le> a" "0 \<le> b" "py_str a = py_str b"
  shows "a = b"
proof -
  from assms have "str_nat (nat a) = str_nat (nat b)" by (simp add: py_str_nonneg)
  then have "nat a = nat b" by (rule str_nat_inj)
  with assms show ?thesis by simp
qed

lemma id_text_no_comma:
  assumes "0 \<le> i"
  shows "CHR '','' \<notin> set (''V-'' @ py_str i)"
proof -
  have "CHR '','' \<notin> set ''0123456789''" by simp
  with str_nat_digits [of "nat i"] have "CHR '','' \<notin> set (str_nat (nat i))" by blast
  with assms show ?thesis by (simp add: py_str_nonneg)
qed

lemma split_from_plain:
  assumes "CHR '','' \<notin> set x"
  shows "split_from '', '' cur (x @ rest) = split_from '', '' (cur @ x) rest"
  using assms
proof (induction x arbitrary: cur)
  case Nil
  show ?case by simp
next
  case (Cons c x)
  from Cons.prems have "c \<noteq> CHR '',''" and x: "CHR '','' \<notin> set x" by auto
  then have "split_from '', '' cur ((c # x) @ rest) = split_from '', '' (cur @ [c]) (x @ rest)"
    by simp
  also have "\<dots> = split_from '', '' ((cur @ [c]) @ x) rest"
    using x by (rule Cons.IH)
  finally show ?case by simp
qed

lemma split_from_separator:
  "split_from '', '' cur ('', '' @ rest) = cur # split_from '', '' [] rest"
  by simp

lemma split_from_join:
  assumes "xs \<noteq> []" and "\<forall>x\<in>set xs. CHR '','' \<notin> set x"
  shows "split_from '', '' cur (join '', '' xs) = (cur @ hd xs) # tl xs"
  using assms
proof (induction xs arbitrary: cur)
  case Nil
  then show ?case by simp
next
  case (Cons x xs)
  from Cons.prems have x: "CHR '','' \<notin> set x" by simp
  show ?case
  proof (cases xs)
    case Nil
    have "split_from '', '' cur (x @ []) = split_from '', '' (cur @ x) []"
      using x by (rule split_from_plain)
    then show ?thesis by (simp add: Nil)
  next
    case (Cons y ys)
    have IH: "split_from '', '' [] (join '', '' xs) = ([] @ hd xs) # tl xs"
      using Cons.prems Cons by (intro Cons.IH) simp_all
    have "split_from '', '' cur (join '', '' (x # xs))
        = split_from '', '' cur (x @ ('', '' @ join '', '' xs))"
      by (simp add: Cons)
    also have "\<dots> = split_from '', '' (cur @ x) ('', '' @ join '', '' xs)"
      using x by (rule split_from_plain)
    also have "\<dots> = (cur @ x) # split_from '', '' [] (join '', '' xs)"
      by (rule split_from_separator)
    finally show ?thesis using IH by (simp add: Cons)
  qed
qed

lemma py_split_join:
  assumes "xs \<noteq> []" and "\<forall>x\<in>set xs. CHR '','' \<notin> set x"
  shows "py_split (join '', '' xs) '', '' = xs"
  using split_from_join [OF assms, of "[]"] assms(1) by (simp add: py_split_def)

lemma py_split_plain:
  assumes "CHR '','' \<notin> set s"
  shows "py_split s '', '' = [s]"
  using split_from_plain [OF assms, of "[]" "[]"] by (simp add: py_split_def)

section \<open>Matching a target against cells\<close>

lemma master_list_canonical: "v \<in> set (master_list N) \<Longrightarrow> canonical v"
  by (auto simp add: master_list_def canonical_def)

lemma set_py_slice: "set (py_slice xs a b) \<subseteq> set xs"
  unfolding py_slice_def Let_def by (meson in_set_dropD in_set_takeD subsetI)

lemma set_py_slice_from: "set (py_slice_from xs a) \<subseteq> set xs"
  unfolding py_slice_from_def by (meson in_set_dropD subsetI)

lemma set_counter_slice: "set (counter_slice pool req i) \<subseteq> set pool"
  unfolding counter_slice_def by (rule set_py_slice)

lemma set_reserve_slice: "set (reserve_slice pool req) \<subseteq> set pool"
  unfolding reserve_slice_def by (rule set_py_slice_from)

lemma set_shift_pool:
  "set (shift_pool cohort_data keys) = (\<Union>k\<in>set keys. set (the (cohort_data k)))"
  by (simp add: shift_pool_def)

lemma cohort_members:
  assumes "k \<in> set slot_keys"
  shows "set (the (map_of (zip slot_keys (rotated_groups (groups_of N) r)) k))
         \<subseteq> set (master_list N)"
proof -
  let ?rg = "rotated_groups (groups_of N) r"
  let ?f = "\<lambda>k. the (map_of (zip slot_keys ?rg) k)"
  have len: "length ?rg = 4" by (simp add: length_rotated_groups length_groups_of)
  have "?f k \<in> set (map ?f slot_keys)" using assms by simp
  then have "?f k \<in> set ?rg" by (simp only: cohorts_of_slot_keys [OF len])
  then have "?f k \<in> set (groups_of N)"
    using mset_rotated_groups [of "groups_of N" r] by (metis mset_eq_setD)
  then have "set (?f k) \<subseteq> set (concat (groups_of N))" by auto
  then show ?thesis by (simp only: concat_groups_of)
qed

lemma shift_pool_canonical:
  assumes "set keys \<subseteq> set slot_keys"
    and "v \<in> set (shift_pool (map_of (zip slot_keys (rotated_groups (groups_of N) r))) keys)"
  shows "canonical v"
proof -
  from assms(2) obtain k where "k \<in> set keys"
    and "v \<in> set (the (map_of (zip slot_keys (rotated_groups (groups_of N) r)) k))"
    by (auto simp add: set_shift_pool)
  with assms(1) cohort_members [of k N r] have "v \<in> set (master_list N)" by blast
  then show ?thesis by (rule master_list_canonical)
qed

lemma empty_marker_no_comma: "CHR '','' \<notin> set empty_marker"
  by (simp add: empty_marker_def)

lemma tokens_names_of:
  assumes "\<forall>v\<in>set ppl. canonical v" and "ppl \<noteq> []"
  shows "py_split (names_of ppl) '', '' = map id_str ppl"
  unfolding names_of_def
proof (rule py_split_join)
  show "map id_str ppl \<noteq> []" using assms(2) by simp
  show "\<forall>x\<in>set (map id_str ppl). CHR '','' \<notin> set x"
  proof
    fix x assume "x \<in> set (map id_str ppl)"
    then obtain v where "v \<in> set ppl" and x: "x = id_str v" by auto
    with assms(1) have "canonical v" by simp
    then show "CHR '','' \<notin> set x"
      unfolding x canonical_def using id_text_no_comma [of "id_num v"] by simp
  qed
qed

lemma canonical_match:
  assumes "\<forall>v\<in>set ppl. canonical v" and "0 \<le> k"
  shows "''V-'' @ py_str k \<in> set (map id_str ppl) \<longleftrightarrow> k \<in> id_num ` set ppl"
proof
  assume "''V-'' @ py_str k \<in> set (map id_str ppl)"
  then obtain v where v: "v \<in> set ppl" and eq: "''V-'' @ py_str k = id_str v" by auto
  from assms(1) v have "canonical v" by simp
  with eq have "py_str k = py_str (id_num v)" and "0 \<le> id_num v"
    by (simp_all add: canonical_def)
  with assms(2) have "k = id_num v" by (intro py_str_inj)
  with v show "k \<in> id_num ` set ppl" by simp
next
  assume "k \<in> id_num ` set ppl"
  then obtain v where v: "v \<in> set ppl" and k: "k = id_num v" by auto
  from assms(1) v have "canonical v" by simp
  then have "id_str v = ''V-'' @ py_str k" by (simp add: canonical_def k)
  with v show "''V-'' @ py_str k \<in> set (map id_str ppl)" by force
qed

lemma token_match_names_of:
  assumes "\<forall>v\<in>set ppl. canonical v" and "0 \<le> k"
  shows "token_match (''V-'' @ py_str k) (names_of ppl) \<longleftrightarrow> k \<in> id_num ` set ppl"
proof (cases "ppl = []")
  case True
  then show ?thesis by (simp add: token_match_def names_of_def py_split_def)
next
  case False
  with assms(1) have "py_split (names_of ppl) '', '' = map id_str ppl"
    by (rule tokens_names_of)
  then show ?thesis
    by (simp only: token_match_def canonical_match [OF assms])
qed

lemma token_match_names_str:
  assumes "\<forall>v\<in>set ppl. canonical v" and "0 \<le> k"
  shows "token_match (''V-'' @ py_str k) (names_str ppl) \<longleftrightarrow> k \<in> id_num ` set ppl"
proof (cases "ppl = []")
  case True
  have "py_split empty_marker '', '' = [empty_marker]"
    by (rule py_split_plain) (rule empty_marker_no_comma)
  then show ?thesis
    by (simp add: True names_str_def token_match_def) (simp add: empty_marker_def)
next
  case False
  then show ?thesis
    using token_match_names_of [OF assms] by (simp add: names_str_def)
qed

lemma token_match_examples:
  "\<not> token_match ''V-1'' ''V-10, V-100''" "token_match ''V-1'' ''V-10, V-1''"
  "\<not> token_match ''V-1'' empty_marker"
  by (simp_all add: token_match_def py_split_def empty_marker_def)

section \<open>The search over the assembled table\<close>

lemma fold_insert_new_seen: "set ks \<subseteq> set cols \<Longrightarrow> fold insert_new ks cols = cols"
  by (induction ks) (simp_all add: insert_new_def)

lemma fold_insert_new_fresh: "distinct (cols @ ks) \<Longrightarrow> fold insert_new ks cols = cols @ ks"
proof (induction ks arbitrary: cols)
  case Nil
  show ?case by simp
next
  case (Cons k ks)
  from Cons.prems have "k \<notin> set cols" and "distinct ((cols @ [k]) @ ks)" by auto
  with Cons.IH [of "cols @ [k]"] show ?case by (simp add: insert_new_def)
qed

lemma df_columns_same_keys:
  assumes "rows \<noteq> []" and "\<forall>row\<in>set rows. map fst row = ks" and "distinct ks"
  shows "df_columns rows = ks"
proof -
  have rest: "fold (\<lambda>row cols. fold insert_new (map fst row) cols) rs ks = ks"
    if "\<forall>row\<in>set rs. map fst row = ks" for rs :: "row list"
    using that by (induction rs) (simp_all add: fold_insert_new_seen)
  from assms(1) obtain r rs where rows: "rows = r # rs" by (cases rows) auto
  with assms(2) have r: "map fst r = ks" and rs: "\<forall>row\<in>set rs. map fst row = ks" by simp_all
  have "fold insert_new ks [] = [] @ ks"
    by (rule fold_insert_new_fresh) (simp add: assms(3))
  then show ?thesis by (simp add: df_columns_def rows r rest [OF rs])
qed

lemma cells_of_keys: "map fst (cells_of cohort_data i pat) = map fst pat"
  by (simp add: cells_of_def comp_def case_prod_unfold)

lemma cell_slot:
  assumes "(ts, keys, req) \<in> set pat" and "distinct (map fst pat)" and "ts \<noteq> ''Counter''"
  shows "cell ((''Counter'', c) # cells_of cohort_data i pat) ts
         = names_str (counter_slice (shift_pool cohort_data keys) req i)"
proof -
  have "(ts, names_str (counter_slice (shift_pool cohort_data keys) req i))
        \<in> set (cells_of cohort_data i pat)"
    using assms(1) by (force simp add: cells_of_def)
  moreover have "distinct (map fst (cells_of cohort_data i pat))"
    by (simp only: cells_of_keys assms(2))
  ultimately have "map_of (cells_of cohort_data i pat) ts
        = Some (names_str (counter_slice (shift_pool cohort_data keys) req i))"
    by (intro map_of_is_SomeI)
  with assms(3) show ?thesis by (simp add: cell_def)
qed

lemma counters_pos: "[0..<counters] \<noteq> []"
  by (simp add: counters_def)

lemma find_volunteer_table:
  assumes "distinct (map fst pat)" and "''Counter'' \<notin> fst ` set pat"
  shows "find_volunteer target
           (map (\<lambda>i. (''Counter'', counter_label i) # cells_of cohort_data i pat) [0..<counters])
           (reserves_of cohort_data pat) =
         concat (map (\<lambda>i. concat (map (\<lambda>(ts, keys, req).
             if token_match target (names_str (counter_slice (shift_pool cohort_data keys) req i))
             then [(ts, counter_label i, ''Counter Duty'')] else []) pat)) [0..<counters])
         @ concat (map (\<lambda>(ts, keys, req).
             if reserve_slice (shift_pool cohort_data keys) req \<noteq> []
                \<and> token_match target (names_of (reserve_slice (shift_pool cohort_data keys) req))
             then [(ts, ''Reserve Area'', ''Standby'')] else []) pat)"
proof -
  let ?row = "\<lambda>i. (''Counter'', counter_label i) # cells_of cohort_data i pat"
  let ?df = "map ?row [0..<counters]"
  have cols: "df_columns ?df = ''Counter'' # map fst pat"
  proof (rule df_columns_same_keys)
    show "?df \<noteq> []" using counters_pos by simp
    show "\<forall>row\<in>set ?df. map fst row = ''Counter'' # map fst pat"
      by (auto simp add: cells_of_keys)
    show "distinct (''Counter'' # map fst pat)" using assms by simp
  qed
  have row: "concat (map (\<lambda>col.
           if col = ''Counter'' then []
           else if token_match target (cell (?row i) col)
                then [(col, cell (?row i) ''Counter'', ''Counter Duty'')] else [])
         (''Counter'' # map fst pat))
      = concat (map (\<lambda>(ts, keys, req).
             if token_match target (names_str (counter_slice (shift_pool cohort_data keys) req i))
             then [(ts, counter_label i, ''Counter Duty'')] else []) pat)" for i
  proof -
    have m: "map (\<lambda>col.
           if col = ''Counter'' then []
           else if token_match target (cell (?row i) col)
                then [(col, cell (?row i) ''Counter'', ''Counter Duty'')] else [])
         (map fst pat)
      = map (\<lambda>(ts, keys, req).
             if token_match target (names_str (counter_slice (shift_pool cohort_data keys) req i))
             then [(ts, counter_label i, ''Counter Duty'')] else []) pat"
      unfolding map_map
    proof (rule map_cong [OF refl])
      fix e assume e: "e \<in> set pat"
      obtain ts keys req where eq: "e = (ts, keys, req)" by (cases e)
      from e assms(2) have ne: "ts \<noteq> ''Counter''" by (force simp add: eq)
      have c: "cell (?row i) ts = names_str (counter_slice (shift_pool cohort_data keys) req i)"
        using e assms(1) ne unfolding eq by (rule cell_slot)
      have cc: "cell (?row i) ''Counter'' = counter_label i" by (simp add: cell_def)
      show "((\<lambda>col.
           if col = ''Counter'' then []
           else if token_match target (cell (?row i) col)
                then [(col, cell (?row i) ''Counter'', ''Counter Duty'')] else []) \<circ> fst) e
        = (case e of (ts, keys, req) \<Rightarrow>
             if token_match target (names_str (counter_slice (shift_pool cohort_data keys) req i))
             then [(ts, counter_label i, ''Counter Duty'')] else [])"
        by (simp add: eq ne c cc)
    qed
    show ?thesis unfolding list.map concat.simps m by simp
  qed
  have res: "concat (map (\<lambda>(time, reserves).
          if token_match target reserves then [(time, ''Reserve Area'', ''Standby'')] else [])
        (reserves_of cohort_data pat))
      = concat (map (\<lambda>(ts, keys, req).
             if reserve_slice (shift_pool cohort_data keys) req \<noteq> []
                \<and> token_match target (names_of (reserve_slice (shift_pool cohort_data keys) req))
             then [(ts, ''Reserve Area'', ''Standby'')] else []) pat)"
    unfolding reserves_of_def
    by (induction pat) (auto simp add: case_prod_unfold)
  show ?thesis
    unfolding find_volunteer_def cols res
    by (simp only: map_map comp_def row)
qed

section \<open>The search on the schedule that is built\<close>

lemma pattern_entry_keys:
  assumes "(ts, keys, req) \<in> set schedule_pattern"
  shows "distinct keys" and "set keys \<subseteq> set slot_keys" and "0 \<le> req"
  using assms pattern_keys by (auto simp add: list_all_iff)

lemma find_volunteer_schedule:
  assumes "0 \<le> k"
  shows "find_volunteer (''V-'' @ py_str k)
           (map (\<lambda>i. (''Counter'', counter_label i)
                  # cells_of (map_of (zip slot_keys (rotated_groups (groups_of N) r))) i
                      schedule_pattern) [0..<counters])
           (reserves_of (map_of (zip slot_keys (rotated_groups (groups_of N) r))) schedule_pattern) =
         concat (map (\<lambda>i. concat (map (\<lambda>(ts, keys, req).
             if k \<in> id_num ` set (counter_slice
                  (shift_pool (map_of (zip slot_keys (rotated_groups (groups_of N) r))) keys) req i)
             then [(ts, counter_label i, ''Counter Duty'')] else []) schedule_pattern))
           [0..<counters])
         @ concat (map (\<lambda>(ts, keys, req).
             if k \<in> id_num ` set (reserve_slice
                  (shift_pool (map_of (zip slot_keys (rotated_groups (groups_of N) r))) keys) req)
             then [(ts, ''Reserve Area'', ''Standby'')] else []) schedule_pattern)"
proof -
  let ?cd = "map_of (zip slot_keys (rotated_groups (groups_of N) r))"
  let ?t = "''V-'' @ py_str k"
  have can: "\<forall>v\<in>set (shift_pool ?cd keys). canonical v"
    if "(ts, keys, req) \<in> set schedule_pattern" for ts keys req
    using shift_pool_canonical [OF pattern_entry_keys(2) [OF that]] by blast
  have cells: "map (\<lambda>(ts, keys, req).
             if token_match ?t (names_str (counter_slice (shift_pool ?cd keys) req i))
             then [(ts, counter_label i, ''Counter Duty'')] else []) schedule_pattern
      = map (\<lambda>(ts, keys, req).
             if k \<in> id_num ` set (counter_slice (shift_pool ?cd keys) req i)
             then [(ts, counter_label i, ''Counter Duty'')] else []) schedule_pattern" for i
  proof (rule map_cong [OF refl])
    fix e assume e: "e \<in> set schedule_pattern"
    obtain ts keys req where eq: "e = (ts, keys, req)" by (cases e)
    have "\<forall>v\<in>set (counter_slice (shift_pool ?cd keys) req i). canonical v"
      using can [OF e [unfolded eq]] set_counter_slice [of "shift_pool ?cd keys" req i] by blast
    then have "token_match ?t (names_str (counter_slice (shift_pool ?cd keys) req i))
        \<longleftrightarrow> k \<in> id_num ` set (counter_slice (shift_pool ?cd keys) req i)"
      using assms by (rule token_match_names_str)
    then show "(case e of (ts, keys, req) \<Rightarrow>
             if token_match ?t (names_str (counter_slice (shift_pool ?cd keys) req i))
             then [(ts, counter_label i, ''Counter Duty'')] else [])
        = (case e of (ts, keys, req) \<Rightarrow>
             if k \<in> id_num ` set (counter_slice (shift_pool ?cd keys) req i)
             then [(ts, counter_label i, ''Counter Duty'')] else [])"
      by (simp add: eq)
  qed
  have res: "map (\<lambda>(ts, keys, req).
             if reserve_slice (shift_pool ?cd keys) req \<noteq> []
                \<and> token_match ?t (names_of (reserve_slice (shift_pool ?cd keys) req))
             then [(ts, ''Reserve Area'', ''Standby'')] else []) schedule_pattern
      = map (\<lambda>(ts, keys, req).
             if k \<in> id_num ` set (reserve_slice (shift_pool ?cd keys) req)
             then [(ts, ''Reserve Area'', ''Standby'')] else []) schedule_pattern"
  proof (rule map_cong [OF refl])
    fix e assume e: "e \<in> set schedule_pattern"
    obtain ts keys req where eq: "e = (ts, keys, req)" by (cases e)
    have "\<forall>v\<in>set (reserve_slice (shift_pool ?cd keys) req). canonical v"
      using can [OF e [unfolded eq]] set_reserve_slice [of "shift_pool ?cd keys" req] by blast
    then have "token_match ?t (names_of (reserve_slice (shift_pool ?cd keys) req))
        \<longleftrightarrow> k \<in> id_num ` set (reserve_slice (shift_pool ?cd keys) req)"
      using assms by (rule token_match_names_of)
    then show "(case e of (ts, keys, req) \<Rightarrow>
             if reserve_slice (shift_pool ?cd keys) req \<noteq> []
                \<and> token_match ?t (names_of (reserve_slice (shift_pool ?cd keys) req))
             then [(ts, ''Reserve Area'', ''Standby'')] else [])
        = (case e of (ts, keys, req) \<Rightarrow>
             if k \<in> id_num ` set (reserve_slice (shift_pool ?cd keys) req)
             then [(ts, ''Reserve Area'', ''Standby'')] else [])"
      by (auto simp add: eq)
  qed
  show ?thesis
    by (simp only: find_volunteer_table [OF pattern_labels] cells res)
qed

lemma pattern_pools:
  assumes "dom cohort_data = set slot_keys"
  shows "list_all (\<lambda>(ts, keys, req). slot_pool cohort_data keys = Inr (shift_pool cohort_data keys))
           schedule_pattern"
proof -
  have "slot_pool cohort_data keys = Inr (shift_pool cohort_data keys)"
    if "(ts, keys, req) \<in> set schedule_pattern" for ts keys req
    using pattern_entry_keys(2) [OF that] by (intro slot_pool_closed) (simp add: assms)
  then show ?thesis by (auto simp add: list_all_iff)
qed

text \<open>
  Claim C6. The search tests \<^verbatim>\<open>target in cell.split(", ")\<close>, and on the schedule that
  is built this is an exact test of membership: for every volunteer count, rotation
  argument and target number \<open>k \<ge> 0\<close>, the search for \<^verbatim>\<open>V-k\<close> reports a counter duty
  for exactly the pairs of counter and slot whose slice of the pool contains the volunteer
  numbered \<open>k\<close>, and a standby for exactly the slots whose reserves contain that volunteer.
  So a cell holding \<^verbatim>\<open>V-10\<close> or \<^verbatim>\<open>V-100\<close> is never reported for the target \<^verbatim>\<open>V-1\<close>.
\<close>

theorem exact_token_search:
  assumes "0 \<le> k"
  shows "\<exists>cohort_data df reserves_log.
       generate_schedule N r = Inr cohort_data
     \<and> build_schedule N r = Inr (df, reserves_log)
     \<and> list_all (\<lambda>(ts, keys, req). slot_pool cohort_data keys = Inr (shift_pool cohort_data keys))
          schedule_pattern
     \<and> find_volunteer (''V-'' @ py_str k) df reserves_log =
         concat (map (\<lambda>i. concat (map (\<lambda>(ts, keys, req).
             if k \<in> id_num ` set (counter_slice (shift_pool cohort_data keys) req i)
             then [(ts, counter_label i, ''Counter Duty'')] else []) schedule_pattern))
           [0..<counters])
         @ concat (map (\<lambda>(ts, keys, req).
             if k \<in> id_num ` set (reserve_slice (shift_pool cohort_data keys) req)
             then [(ts, ''Reserve Area'', ''Standby'')] else []) schedule_pattern)"
proof -
  let ?cd = "map_of (zip slot_keys (rotated_groups (groups_of N) r))"
  have len: "length (rotated_groups (groups_of N) r) = 4"
    by (simp add: length_rotated_groups length_groups_of)
  have 1: "generate_schedule N r = Inr ?cd" by (rule generate_schedule_closed)
  have 2: "build_schedule N r =
     Inr (map (\<lambda>i. (''Counter'', counter_label i) # cells_of ?cd i schedule_pattern) [0..<counters],
          reserves_of ?cd schedule_pattern)"
    by (rule build_schedule_closed)
  have 3: "list_all (\<lambda>(ts, keys, req). slot_pool ?cd keys = Inr (shift_pool ?cd keys))
          schedule_pattern"
    by (rule pattern_pools) (rule dom_cohort_map [OF len])
  from 1 2 3 find_volunteer_schedule [OF assms, of N r] show ?thesis by blast
qed

theorem exact_token_search_witness:
  "(0::int) \<le> 1
   \<and> (\<exists>cohort_data df reserves_log.
       generate_schedule 250 1 = Inr cohort_data
     \<and> build_schedule 250 1 = Inr (df, reserves_log)
     \<and> list_all (\<lambda>(ts, keys, req). slot_pool cohort_data keys = Inr (shift_pool cohort_data keys))
          schedule_pattern
     \<and> find_volunteer ''V-1'' df reserves_log =
         concat (map (\<lambda>i. concat (map (\<lambda>(ts, keys, req).
             if 1 \<in> id_num ` set (counter_slice (shift_pool cohort_data keys) req i)
             then [(ts, counter_label i, ''Counter Duty'')] else []) schedule_pattern))
           [0..<counters])
         @ concat (map (\<lambda>(ts, keys, req).
             if 1 \<in> id_num ` set (reserve_slice (shift_pool cohort_data keys) req)
             then [(ts, ''Reserve Area'', ''Standby'')] else []) schedule_pattern))"
proof -
  have h: "(0::int) \<le> 1" by simp
  have s: "''V-'' @ py_str 1 = ''V-1''" by (simp add: py_str_def str_nat.simps)
  from h exact_token_search [OF h, of 250 1] show ?thesis unfolding s by blast
qed

section \<open>Cells, the empty marker and the reserves log\<close>

lemma map_of_row:
  assumes "(ts, keys, req) \<in> set pat" and "distinct (map fst pat)" and "ts \<noteq> ''Counter''"
  shows "map_of ((''Counter'', c) # cells_of cohort_data i pat) ts
         = Some (names_str (counter_slice (shift_pool cohort_data keys) req i))"
proof -
  have "(ts, names_str (counter_slice (shift_pool cohort_data keys) req i))
        \<in> set (cells_of cohort_data i pat)"
    using assms(1) by (force simp add: cells_of_def)
  moreover have "distinct (map fst (cells_of cohort_data i pat))"
    by (simp only: cells_of_keys assms(2))
  ultimately have "map_of (cells_of cohort_data i pat) ts
        = Some (names_str (counter_slice (shift_pool cohort_data keys) req i))"
    by (intro map_of_is_SomeI)
  with assms(3) show ?thesis by simp
qed

lemma names_of_starts:
  assumes "canonical v"
  shows "\<exists>s. names_of (v # vs) = CHR ''V'' # s"
  using assms by (cases vs) (simp_all add: names_of_def canonical_def)

lemma names_str_marker:
  assumes "\<forall>v\<in>set ppl. canonical v"
  shows "names_str ppl = empty_marker \<longleftrightarrow> ppl = []"
proof (cases ppl)
  case Nil
  then show ?thesis by (simp add: names_str_def)
next
  case (Cons v vs)
  with assms have "canonical v" by simp
  then obtain s where "names_of (v # vs) = CHR ''V'' # s"
    using names_of_starts by blast
  then show ?thesis by (simp add: Cons names_str_def empty_marker_def)
qed

lemma names_of_nonempty:
  assumes "\<forall>v\<in>set ppl. canonical v" and "ppl \<noteq> []"
  shows "names_of ppl \<noteq> []"
proof -
  from assms(2) obtain v vs where ppl: "ppl = v # vs" by (cases ppl) auto
  with assms(1) have "canonical v" by simp
  then obtain s where "names_of (v # vs) = CHR ''V'' # s"
    using names_of_starts by blast
  then show ?thesis by (simp add: ppl)
qed

lemma reserves_of_entries:
  "(t, s) \<in> set (reserves_of cohort_data pat) \<longleftrightarrow>
     (\<exists>keys req. (t, keys, req) \<in> set pat
        \<and> reserve_slice (shift_pool cohort_data keys) req \<noteq> []
        \<and> s = names_of (reserve_slice (shift_pool cohort_data keys) req))"
  unfolding reserves_of_def by (induction pat) (auto split: if_splits)

lemma filter_reserves:
  assumes "distinct (map fst pat)" and "(ts, keys, req) \<in> set pat"
  shows "filter (\<lambda>(t, s). t = ts) (reserves_of cohort_data pat) =
         (if reserve_slice (shift_pool cohort_data keys) req = [] then []
          else [(ts, names_of (reserve_slice (shift_pool cohort_data keys) req))])"
  using assms
proof (induction pat)
  case Nil
  then show ?case by simp
next
  case (Cons e pat)
  obtain t ks rq where e: "e = (t, ks, rq)" by (cases e)
  have tail: "reserves_of cohort_data (e # pat) =
      (if reserve_slice (shift_pool cohort_data ks) rq = [] then []
       else [(t, names_of (reserve_slice (shift_pool cohort_data ks) rq))])
      @ reserves_of cohort_data pat"
    by (simp add: reserves_of_def e)
  show ?case
  proof (cases "t = ts")
    case True
    with Cons.prems have same: "ks = keys" "rq = req"
      by (auto simp add: e image_iff)
    have "filter (\<lambda>(t, s). t = ts) (reserves_of cohort_data pat) = []"
    proof -
      have "ts \<notin> fst ` set pat" using Cons.prems(1) True by (simp add: e)
      then have "\<forall>x\<in>set (reserves_of cohort_data pat). fst x \<noteq> ts"
        using reserves_of_entries [of _ _ cohort_data pat] by force
      then show ?thesis by (auto simp add: filter_empty_conv)
    qed
    then show ?thesis by (simp add: tail True same)
  next
    case False
    with Cons.prems have "(ts, keys, req) \<in> set pat" and "distinct (map fst pat)"
      by (auto simp add: e)
    with Cons.IH False show ?thesis by (simp add: tail)
  qed
qed

section \<open>The assembled schedule\<close>

lemma table_row_nth:
  assumes "i < counters"
  shows "map (\<lambda>i. (''Counter'', counter_label i) # cells_of cohort_data i pat) [0..<counters] ! i
         = (''Counter'', counter_label i) # cells_of cohort_data i pat"
  using assms by simp

lemma pattern_label_not_counter:
  "(ts, keys, req) \<in> set schedule_pattern \<Longrightarrow> ts \<noteq> ''Counter''"
  using pattern_labels(2) by force

lemma groups_of_8_records:
  "groups_of 8 =
     [[\<lparr>id_str = ''V-1'', id_num = 1\<rparr>, \<lparr>id_str = ''V-2'', id_num = 2\<rparr>],
      [\<lparr>id_str = ''V-3'', id_num = 3\<rparr>, \<lparr>id_str = ''V-4'', id_num = 4\<rparr>],
      [\<lparr>id_str = ''V-5'', id_num = 5\<rparr>, \<lparr>id_str = ''V-6'', id_num = 6\<rparr>],
      [\<lparr>id_str = ''V-7'', id_num = 7\<rparr>, \<lparr>id_str = ''V-8'', id_num = 8\<rparr>]]"
  by (simp add: groups_of_def Let_def chunk_of_def master_list_def upto.simps py_slice_def
      py_slice_from_def adjust_index_def py_str_def str_nat.simps)

text \<open>
  Claim C7. For every volunteer count and rotation argument the build does not fail.
  The table has a row per counter, and in every row a cell for every slot of the pattern.
  The cell of an empty slice is the marker, the twelve bytes of U+26A0, U+FE0F and
  \<^verbatim>\<open> EMPTY\<close>; the cell of any other slice is the display ids of the slice joined by
  \<^verbatim>\<open>", "\<close>, which starts with \<^verbatim>\<open>V\<close> and so is never the marker. A slot whose leftovers
  are empty has no entry in the reserves log, a slot with leftovers has the entry with
  their names, and no entry of the log has an empty text.
\<close>

theorem empty_cells_and_reserves:
  "\<exists>cohort_data df reserves_log.
       generate_schedule N r = Inr cohort_data
     \<and> build_schedule N r = Inr (df, reserves_log)
     \<and> length df = counters
     \<and> empty_marker = [CHR 0xE2, CHR 0x9A, CHR 0xA0, CHR 0xEF, CHR 0xB8, CHR 0x8F,
                        CHR '' '', CHR ''E'', CHR ''M'', CHR ''P'', CHR ''T'', CHR ''Y'']
     \<and> (\<forall>(ts, keys, req)\<in>set schedule_pattern. \<exists>pool.
          slot_pool cohort_data keys = Inr pool
        \<and> (\<forall>i<counters.
              map_of (df ! i) ts = Some (names_str (counter_slice pool req i))
            \<and> (names_str (counter_slice pool req i) = empty_marker
                 \<longleftrightarrow> counter_slice pool req i = [])
            \<and> map_of (df ! i) ts
                = Some (if counter_slice pool req i = [] then empty_marker
                        else join '', '' (map id_str (counter_slice pool req i)))
            \<and> (counter_slice pool req i \<noteq> []
                 \<longrightarrow> hd (join '', '' (map id_str (counter_slice pool req i))) = CHR ''V'')
            \<and> counter_slice pool req i = take (nat req) (drop (i * nat req) pool))
        \<and> reserve_slice pool req = drop (counters * nat req) pool
        \<and> (if reserve_slice pool req = [] then ts \<notin> fst ` set reserves_log
            else (ts, names_of (reserve_slice pool req)) \<in> set reserves_log))
     \<and> (\<forall>(t, s)\<in>set reserves_log. s \<noteq> [])"
proof -
  let ?cd = "map_of (zip slot_keys (rotated_groups (groups_of N) r))"
  let ?df = "map (\<lambda>i. (''Counter'', counter_label i) # cells_of ?cd i schedule_pattern)
               [0..<counters]"
  let ?log = "reserves_of ?cd schedule_pattern"
  have len: "length (rotated_groups (groups_of N) r) = 4"
    by (simp add: length_rotated_groups length_groups_of)
  have 1: "generate_schedule N r = Inr ?cd" by (rule generate_schedule_closed)
  have 2: "build_schedule N r = Inr (?df, ?log)" by (rule build_schedule_closed)
  have 3: "length ?df = counters" by simp
  have mk: "empty_marker = [CHR 0xE2, CHR 0x9A, CHR 0xA0, CHR 0xEF, CHR 0xB8, CHR 0x8F,
                        CHR '' '', CHR ''E'', CHR ''M'', CHR ''P'', CHR ''T'', CHR ''Y'']"
    by (simp add: empty_marker_def)
  have can: "\<forall>v\<in>set (shift_pool ?cd keys). canonical v"
    if "(ts, keys, req) \<in> set schedule_pattern" for ts keys req
    using shift_pool_canonical [OF pattern_entry_keys(2) [OF that]] by blast
  have 4: "\<exists>pool. slot_pool ?cd keys = Inr pool
        \<and> (\<forall>i<counters.
              map_of (?df ! i) ts = Some (names_str (counter_slice pool req i))
            \<and> (names_str (counter_slice pool req i) = empty_marker
                 \<longleftrightarrow> counter_slice pool req i = [])
            \<and> map_of (?df ! i) ts
                = Some (if counter_slice pool req i = [] then empty_marker
                        else join '', '' (map id_str (counter_slice pool req i)))
            \<and> (counter_slice pool req i \<noteq> []
                 \<longrightarrow> hd (join '', '' (map id_str (counter_slice pool req i))) = CHR ''V'')
            \<and> counter_slice pool req i = take (nat req) (drop (i * nat req) pool))
        \<and> reserve_slice pool req = drop (counters * nat req) pool
        \<and> (if reserve_slice pool req = [] then ts \<notin> fst ` set ?log
            else (ts, names_of (reserve_slice pool req)) \<in> set ?log)"
    if e: "(ts, keys, req) \<in> set schedule_pattern" for ts keys req
  proof -
    let ?pool = "shift_pool ?cd keys"
    note k = pattern_entry_keys [OF e]
    have a: "slot_pool ?cd keys = Inr ?pool"
      using k(2) by (intro slot_pool_closed) (simp add: dom_cohort_map [OF len])
    have b: "map_of (?df ! i) ts = Some (names_str (counter_slice ?pool req i))"
      if "i < counters" for i
      unfolding table_row_nth [OF that]
      using e pattern_labels(1) pattern_label_not_counter [OF e] by (rule map_of_row)
    have cs: "\<forall>v\<in>set (counter_slice ?pool req i). canonical v" for i
      using can [OF e] set_counter_slice [of ?pool req i] by blast
    have c: "names_str (counter_slice ?pool req i) = empty_marker
          \<longleftrightarrow> counter_slice ?pool req i = []" for i
      using cs by (rule names_str_marker)
    have b': "map_of (?df ! i) ts
                = Some (if counter_slice ?pool req i = [] then empty_marker
                        else join '', '' (map id_str (counter_slice ?pool req i)))"
      if "i < counters" for i
      using b [OF that] by (simp add: names_str_def names_of_def)
    have v: "hd (join '', '' (map id_str (counter_slice ?pool req i))) = CHR ''V''"
      if ne: "counter_slice ?pool req i \<noteq> []" for i
    proof -
      from ne obtain x xs where sl: "counter_slice ?pool req i = x # xs"
        by (cases "counter_slice ?pool req i") auto
      with cs [of i] have "canonical x" by simp
      then obtain s where "names_of (x # xs) = CHR ''V'' # s"
        using names_of_starts by blast
      then show ?thesis by (simp add: sl names_of_def)
    qed
    have t: "counter_slice ?pool req i = take (nat req) (drop (i * nat req) ?pool)" for i
      using k(3) by (rule counter_slice_nonneg)
    have rd: "reserve_slice ?pool req = drop (counters * nat req) ?pool"
      using k(3) by (rule reserve_slice_nonneg)
    have f: "filter (\<lambda>(t, s). t = ts) ?log =
         (if reserve_slice ?pool req = [] then []
          else [(ts, names_of (reserve_slice ?pool req))])"
      using pattern_labels(1) e by (rule filter_reserves)
    have d: "if reserve_slice ?pool req = [] then ts \<notin> fst ` set ?log
            else (ts, names_of (reserve_slice ?pool req)) \<in> set ?log"
    proof (cases "reserve_slice ?pool req = []")
      case True
      with f have "filter (\<lambda>(t, s). t = ts) ?log = []" by simp
      then have "ts \<notin> fst ` set ?log"
        by (auto simp add: filter_empty_conv)
      with True show ?thesis by simp
    next
      case False
      with f have "(ts, names_of (reserve_slice ?pool req)) \<in> set (filter (\<lambda>(t, s). t = ts) ?log)"
        by simp
      then have "(ts, names_of (reserve_slice ?pool req)) \<in> set ?log" by simp
      with False show ?thesis by simp
    qed
    have cell: "\<forall>i<counters.
              map_of (?df ! i) ts = Some (names_str (counter_slice ?pool req i))
            \<and> (names_str (counter_slice ?pool req i) = empty_marker
                 \<longleftrightarrow> counter_slice ?pool req i = [])
            \<and> map_of (?df ! i) ts
                = Some (if counter_slice ?pool req i = [] then empty_marker
                        else join '', '' (map id_str (counter_slice ?pool req i)))
            \<and> (counter_slice ?pool req i \<noteq> []
                 \<longrightarrow> hd (join '', '' (map id_str (counter_slice ?pool req i))) = CHR ''V'')
            \<and> counter_slice ?pool req i = take (nat req) (drop (i * nat req) ?pool)"
      using b c b' v t by blast
    from a cell rd d show ?thesis by blast
  qed
  have 5: "s \<noteq> []" if "(t, s) \<in> set ?log" for t s
  proof -
    from that obtain keys req where e: "(t, keys, req) \<in> set schedule_pattern"
      and ne: "reserve_slice (shift_pool ?cd keys) req \<noteq> []"
      and s: "s = names_of (reserve_slice (shift_pool ?cd keys) req)"
      unfolding reserves_of_entries by blast
    have "\<forall>v\<in>set (reserve_slice (shift_pool ?cd keys) req). canonical v"
      using can [OF e] set_reserve_slice [of "shift_pool ?cd keys" req] by blast
    then show ?thesis unfolding s using ne by (rule names_of_nonempty)
  qed
  from 4 have cells: "\<forall>(ts, keys, req)\<in>set schedule_pattern. \<exists>pool.
          slot_pool ?cd keys = Inr pool
        \<and> (\<forall>i<counters.
              map_of (?df ! i) ts = Some (names_str (counter_slice pool req i))
            \<and> (names_str (counter_slice pool req i) = empty_marker
                 \<longleftrightarrow> counter_slice pool req i = [])
            \<and> map_of (?df ! i) ts
                = Some (if counter_slice pool req i = [] then empty_marker
                        else join '', '' (map id_str (counter_slice pool req i)))
            \<and> (counter_slice pool req i \<noteq> []
                 \<longrightarrow> hd (join '', '' (map id_str (counter_slice pool req i))) = CHR ''V'')
            \<and> counter_slice pool req i = take (nat req) (drop (i * nat req) pool))
        \<and> reserve_slice pool req = drop (counters * nat req) pool
        \<and> (if reserve_slice pool req = [] then ts \<notin> fst ` set ?log
            else (ts, names_of (reserve_slice pool req)) \<in> set ?log)"
    by blast
  from 5 have log: "\<forall>(t, s)\<in>set ?log. s \<noteq> []" by blast
  from 1 2 3 mk cells log show ?thesis by blast
qed

theorem empty_cells_and_reserves_witness:
  "(''08:00 - 10:00 (Peak)'', [''1'', ''2''], 4) \<in> set schedule_pattern \<and> 1 < counters
   \<and> (\<exists>cohort_data df reserves_log.
         generate_schedule 8 0 = Inr cohort_data
       \<and> build_schedule 8 0 = Inr (df, reserves_log)
       \<and> map_of (df ! 0) ''08:00 - 10:00 (Peak)'' = Some ''V-1, V-2, V-3, V-4''
       \<and> map_of (df ! 1) ''08:00 - 10:00 (Peak)''
           = Some [CHR 0xE2, CHR 0x9A, CHR 0xA0, CHR 0xEF, CHR 0xB8, CHR 0x8F,
                   CHR '' '', CHR ''E'', CHR ''M'', CHR ''P'', CHR ''T'', CHR ''Y'']
       \<and> ''08:00 - 10:00 (Peak)'' \<notin> fst ` set reserves_log)"
proof -
  let ?ts = "''08:00 - 10:00 (Peak)''"
  let ?pool = "[\<lparr>id_str = ''V-1'', id_num = 1\<rparr>, \<lparr>id_str = ''V-2'', id_num = 2\<rparr>,
                \<lparr>id_str = ''V-3'', id_num = 3\<rparr>, \<lparr>id_str = ''V-4'', id_num = 4\<rparr>]"
  have m: "(?ts, [''1'', ''2''], 4) \<in> set schedule_pattern"
    by (simp add: schedule_pattern_def)
  have c: "0 < counters" "1 < counters" by (simp_all add: counters_def)
  from empty_cells_and_reserves [of 8 0] obtain cohort_data df reserves_log where
    g: "generate_schedule 8 0 = Inr cohort_data"
    and b: "build_schedule 8 0 = Inr (df, reserves_log)"
    and mk: "empty_marker = [CHR 0xE2, CHR 0x9A, CHR 0xA0, CHR 0xEF, CHR 0xB8, CHR 0x8F,
                        CHR '' '', CHR ''E'', CHR ''M'', CHR ''P'', CHR ''T'', CHR ''Y'']"
    and cells: "\<forall>(ts, keys, req)\<in>set schedule_pattern. \<exists>pool.
          slot_pool cohort_data keys = Inr pool
        \<and> (\<forall>i<counters.
              map_of (df ! i) ts = Some (names_str (counter_slice pool req i))
            \<and> (names_str (counter_slice pool req i) = empty_marker
                 \<longleftrightarrow> counter_slice pool req i = [])
            \<and> map_of (df ! i) ts
                = Some (if counter_slice pool req i = [] then empty_marker
                        else join '', '' (map id_str (counter_slice pool req i)))
            \<and> (counter_slice pool req i \<noteq> []
                 \<longrightarrow> hd (join '', '' (map id_str (counter_slice pool req i))) = CHR ''V'')
            \<and> counter_slice pool req i = take (nat req) (drop (i * nat req) pool))
        \<and> reserve_slice pool req = drop (counters * nat req) pool
        \<and> (if reserve_slice pool req = [] then ts \<notin> fst ` set reserves_log
            else (ts, names_of (reserve_slice pool req)) \<in> set reserves_log)"
    by blast
  have "rotated_groups (groups_of 8) 0 = groups_of 8"
    by (simp add: rotated_groups_def py_slice_from_def py_slice_to_def adjust_index_def)
  with g have cd: "cohort_data = map_of (zip slot_keys (groups_of 8))"
    by (simp add: generate_schedule_closed)
  have p: "slot_pool cohort_data [''1'', ''2''] = Inr ?pool"
    by (simp add: cd groups_of_8_records slot_keys_def slot_pool_def merge_step_def)
  from bspec [OF cells m] have "\<exists>pool.
          slot_pool cohort_data [''1'', ''2''] = Inr pool
        \<and> (\<forall>i<counters.
              map_of (df ! i) ?ts = Some (names_str (counter_slice pool 4 i))
            \<and> (names_str (counter_slice pool 4 i) = empty_marker
                 \<longleftrightarrow> counter_slice pool 4 i = [])
            \<and> map_of (df ! i) ?ts
                = Some (if counter_slice pool 4 i = [] then empty_marker
                        else join '', '' (map id_str (counter_slice pool 4 i)))
            \<and> (counter_slice pool 4 i \<noteq> []
                 \<longrightarrow> hd (join '', '' (map id_str (counter_slice pool 4 i))) = CHR ''V'')
            \<and> counter_slice pool 4 i = take (nat 4) (drop (i * nat 4) pool))
        \<and> reserve_slice pool 4 = drop (counters * nat 4) pool
        \<and> (if reserve_slice pool 4 = [] then ?ts \<notin> fst ` set reserves_log
            else (?ts, names_of (reserve_slice pool 4)) \<in> set reserves_log)"
    by (simp only: prod.case)
  then obtain pool where
    p': "slot_pool cohort_data [''1'', ''2''] = Inr pool"
    and i: "\<forall>i<counters.
              map_of (df ! i) ?ts = Some (names_str (counter_slice pool 4 i))
            \<and> (names_str (counter_slice pool 4 i) = empty_marker
                 \<longleftrightarrow> counter_slice pool 4 i = [])
            \<and> map_of (df ! i) ?ts
                = Some (if counter_slice pool 4 i = [] then empty_marker
                        else join '', '' (map id_str (counter_slice pool 4 i)))
            \<and> (counter_slice pool 4 i \<noteq> []
                 \<longrightarrow> hd (join '', '' (map id_str (counter_slice pool 4 i))) = CHR ''V'')
            \<and> counter_slice pool 4 i = take (nat 4) (drop (i * nat 4) pool)"
    and rd: "reserve_slice pool 4 = drop (counters * nat 4) pool"
    and rl: "if reserve_slice pool 4 = [] then ?ts \<notin> fst ` set reserves_log
            else (?ts, names_of (reserve_slice pool 4)) \<in> set reserves_log"
    by blast
  from p p' have pool: "pool = ?pool" by simp
  from i c(1) have "map_of (df ! 0) ?ts
                = Some (if counter_slice pool 4 0 = [] then empty_marker
                        else join '', '' (map id_str (counter_slice pool 4 0)))"
    and "counter_slice pool 4 0 = take (nat 4) (drop (0 * nat 4) pool)"
    by blast+
  then have r0: "map_of (df ! 0) ?ts = Some ''V-1, V-2, V-3, V-4''"
    by (simp add: pool)
  from i c(2) have "map_of (df ! 1) ?ts
                = Some (if counter_slice pool 4 1 = [] then empty_marker
                        else join '', '' (map id_str (counter_slice pool 4 1)))"
    and "counter_slice pool 4 1 = take (nat 4) (drop (1 * nat 4) pool)"
    by blast+
  then have r1: "map_of (df ! 1) ?ts
           = Some [CHR 0xE2, CHR 0x9A, CHR 0xA0, CHR 0xEF, CHR 0xB8, CHR 0x8F,
                   CHR '' '', CHR ''E'', CHR ''M'', CHR ''P'', CHR ''T'', CHR ''Y'']"
    by (simp add: pool mk)
  from rd have "reserve_slice pool 4 = []" by (simp add: pool counters_def)
  with rl have r2: "?ts \<notin> fst ` set reserves_log" by simp
  from m c(2) g b r0 r1 r2 show ?thesis by blast
qed

section \<open>One place per volunteer and slot\<close>

lemma shift_pool_distinct:
  assumes "distinct keys" and "set keys \<subseteq> set slot_keys"
  shows "distinct (map id_num
           (shift_pool (map_of (zip slot_keys (rotated_groups (groups_of N) r))) keys))"
proof -
  have "sorted_wrt (<) (map id_num
           (shift_pool (map_of (zip slot_keys (rotated_groups (groups_of N) r))) keys))"
    by (rule shift_pool_strict) (rule merged_ids_distinct [OF assms])
  then show ?thesis by (simp only: strict_sorted_iff)
qed

lemma membership_count:
  assumes "distinct (concat xss)"
  shows "sum_list (map (\<lambda>xs. if x \<in> set xs then 1 else 0) xss)
         = (if x \<in> set (concat xss) then 1 else (0::nat))"
  using assms by (induction xss) auto

lemma length_filter_sum:
  "length (filter P xs) = sum_list (map (\<lambda>x. if P x then 1 else (0::nat)) xs)"
  by (induction xs) simp_all

lemma slot_occurrences:
  assumes "0 \<le> req" and "distinct (map id_num pool)"
  shows "length (filter (\<lambda>i. k \<in> id_num ` set (counter_slice pool req i)) [0..<counters])
         + (if k \<in> id_num ` set (reserve_slice pool req) then 1 else 0)
         = (if k \<in> id_num ` set pool then 1 else 0)"
proof -
  let ?xss = "map (\<lambda>i. map id_num (counter_slice pool req i)) [0..<counters]
              @ [map id_num (reserve_slice pool req)]"
  have "concat ?xss
      = map id_num (concat (map (counter_slice pool req) [0..<counters]) @ reserve_slice pool req)"
    by (simp add: map_concat comp_def)
  then have cc: "concat ?xss = map id_num pool"
    by (simp only: slices_partition [OF assms(1)])
  then have "distinct (concat ?xss)" using assms(2) by simp
  then have "sum_list (map (\<lambda>xs. if k \<in> set xs then 1 else 0) ?xss)
         = (if k \<in> set (concat ?xss) then 1 else (0::nat))"
    by (rule membership_count)
  then have "sum_list (map (\<lambda>i. if k \<in> id_num ` set (counter_slice pool req i) then 1 else 0)
                 [0..<counters])
         + (if k \<in> id_num ` set (reserve_slice pool req) then 1 else 0)
         = (if k \<in> id_num ` set pool then 1 else (0::nat))"
    unfolding cc by (simp add: comp_def)
  then show ?thesis by (simp only: length_filter_sum)
qed

text \<open>
  Claim C9. In the schedule that is built, take any slot of the pattern and its pool.
  The cell of counter \<open>i\<close> in the slot's column is the text of the counter's slice of the
  pool and the slot's only entry in the reserves log, if any, is the text of the reserves.
  The identifiers in the 30 slices and the reserves, taken together, are pairwise
  different: a volunteer is in at most one counter's slice, and a volunteer in a
  counter's slice is not in the reserves.
\<close>

theorem one_place_per_slot:
  "\<exists>cohort_data df reserves_log.
       generate_schedule N r = Inr cohort_data
     \<and> build_schedule N r = Inr (df, reserves_log)
     \<and> (\<forall>(ts, keys, req)\<in>set schedule_pattern. \<exists>pool.
          slot_pool cohort_data keys = Inr pool
        \<and> (\<forall>i<counters. map_of (df ! i) ts = Some (names_str (counter_slice pool req i)))
        \<and> filter (\<lambda>(t, s). t = ts) reserves_log =
            (if reserve_slice pool req = [] then []
             else [(ts, names_of (reserve_slice pool req))])
        \<and> distinct (map id_num (concat (map (counter_slice pool req) [0..<counters])
                                  @ reserve_slice pool req))
        \<and> (\<forall>k. length (filter (\<lambda>i. k \<in> id_num ` set (counter_slice pool req i)) [0..<counters])
                 + (if k \<in> id_num ` set (reserve_slice pool req) then 1 else 0) \<le> 1))"
proof -
  let ?cd = "map_of (zip slot_keys (rotated_groups (groups_of N) r))"
  let ?df = "map (\<lambda>i. (''Counter'', counter_label i) # cells_of ?cd i schedule_pattern)
               [0..<counters]"
  let ?log = "reserves_of ?cd schedule_pattern"
  have len: "length (rotated_groups (groups_of N) r) = 4"
    by (simp add: length_rotated_groups length_groups_of)
  have 1: "generate_schedule N r = Inr ?cd" by (rule generate_schedule_closed)
  have 2: "build_schedule N r = Inr (?df, ?log)" by (rule build_schedule_closed)
  have 3: "\<exists>pool. slot_pool ?cd keys = Inr pool
        \<and> (\<forall>i<counters. map_of (?df ! i) ts = Some (names_str (counter_slice pool req i)))
        \<and> filter (\<lambda>(t, s). t = ts) ?log =
            (if reserve_slice pool req = [] then []
             else [(ts, names_of (reserve_slice pool req))])
        \<and> distinct (map id_num (concat (map (counter_slice pool req) [0..<counters])
                                  @ reserve_slice pool req))
        \<and> (\<forall>k. length (filter (\<lambda>i. k \<in> id_num ` set (counter_slice pool req i)) [0..<counters])
                 + (if k \<in> id_num ` set (reserve_slice pool req) then 1 else 0) \<le> 1)"
    if e: "(ts, keys, req) \<in> set schedule_pattern" for ts keys req
  proof -
    let ?pool = "shift_pool ?cd keys"
    note k = pattern_entry_keys [OF e]
    have a: "slot_pool ?cd keys = Inr ?pool"
      using k(2) by (intro slot_pool_closed) (simp add: dom_cohort_map [OF len])
    have b: "map_of (?df ! i) ts = Some (names_str (counter_slice ?pool req i))"
      if "i < counters" for i
      unfolding table_row_nth [OF that]
      using e pattern_labels(1) pattern_label_not_counter [OF e] by (rule map_of_row)
    have c: "filter (\<lambda>(t, s). t = ts) ?log =
         (if reserve_slice ?pool req = [] then []
          else [(ts, names_of (reserve_slice ?pool req))])"
      using pattern_labels(1) e by (rule filter_reserves)
    have dp: "distinct (map id_num ?pool)"
      using k(1,2) by (rule shift_pool_distinct)
    then have d: "distinct (map id_num (concat (map (counter_slice ?pool req) [0..<counters])
                                  @ reserve_slice ?pool req))"
      by (simp only: slices_partition [OF k(3)])
    have f: "length (filter (\<lambda>i. k \<in> id_num ` set (counter_slice ?pool req i)) [0..<counters])
                 + (if k \<in> id_num ` set (reserve_slice ?pool req) then 1 else 0) \<le> 1" for k
      by (simp only: slot_occurrences [OF k(3) dp]) simp
    from a b c d f show ?thesis by blast
  qed
  from 3 have cells: "\<forall>(ts, keys, req)\<in>set schedule_pattern. \<exists>pool.
          slot_pool ?cd keys = Inr pool
        \<and> (\<forall>i<counters. map_of (?df ! i) ts = Some (names_str (counter_slice pool req i)))
        \<and> filter (\<lambda>(t, s). t = ts) ?log =
            (if reserve_slice pool req = [] then []
             else [(ts, names_of (reserve_slice pool req))])
        \<and> distinct (map id_num (concat (map (counter_slice pool req) [0..<counters])
                                  @ reserve_slice pool req))
        \<and> (\<forall>k. length (filter (\<lambda>i. k \<in> id_num ` set (counter_slice pool req i)) [0..<counters])
                 + (if k \<in> id_num ` set (reserve_slice pool req) then 1 else 0) \<le> 1)"
    by blast
  from 1 2 cells show ?thesis by blast
qed

theorem one_place_per_slot_witness:
  "(''16:00 - 18:00 (Off)'', [''1''], 2) \<in> set schedule_pattern
   \<and> (\<exists>cohort_data df reserves_log pool.
         generate_schedule 250 1 = Inr cohort_data
       \<and> build_schedule 250 1 = Inr (df, reserves_log)
       \<and> slot_pool cohort_data [''1''] = Inr pool
       \<and> distinct (map id_num (concat (map (counter_slice pool 2) [0..<counters])
                                 @ reserve_slice pool 2))
       \<and> filter (\<lambda>(t, s). t = ''16:00 - 18:00 (Off)'') reserves_log =
            (if reserve_slice pool 2 = [] then []
             else [(''16:00 - 18:00 (Off)'', names_of (reserve_slice pool 2))]))"
proof -
  have m: "(''16:00 - 18:00 (Off)'', [''1''], 2) \<in> set schedule_pattern"
    by (simp add: schedule_pattern_def)
  from one_place_per_slot [of 250 1] obtain cohort_data df reserves_log where
    g: "generate_schedule 250 1 = Inr cohort_data"
    and b: "build_schedule 250 1 = Inr (df, reserves_log)"
    and cells: "\<forall>(ts, keys, req)\<in>set schedule_pattern. \<exists>pool.
          slot_pool cohort_data keys = Inr pool
        \<and> (\<forall>i<counters. map_of (df ! i) ts = Some (names_str (counter_slice pool req i)))
        \<and> filter (\<lambda>(t, s). t = ts) reserves_log =
            (if reserve_slice pool req = [] then []
             else [(ts, names_of (reserve_slice pool req))])
        \<and> distinct (map id_num (concat (map (counter_slice pool req) [0..<counters])
                                  @ reserve_slice pool req))
        \<and> (\<forall>k. length (filter (\<lambda>i. k \<in> id_num ` set (counter_slice pool req i)) [0..<counters])
                 + (if k \<in> id_num ` set (reserve_slice pool req) then 1 else 0) \<le> 1)"
    by blast
  from bspec [OF cells m] obtain pool where
    "slot_pool cohort_data [''1''] = Inr pool"
    "distinct (map id_num (concat (map (counter_slice pool 2) [0..<counters])
                                 @ reserve_slice pool 2))"
    "filter (\<lambda>(t, s). t = ''16:00 - 18:00 (Off)'') reserves_log =
            (if reserve_slice pool 2 = [] then []
             else [(''16:00 - 18:00 (Off)'', names_of (reserve_slice pool 2))])"
    by auto
  with m g b show ?thesis by blast
qed

section \<open>Four slots on duty\<close>

lemma rotated_ids:
  "mset (map id_num (concat (rotated_groups (groups_of N) r))) = mset [1..N]"
proof -
  have "mset (concat (rotated_groups (groups_of N) r)) = mset (concat (groups_of N))"
    by (rule mset_concat_cong) (rule mset_rotated_groups)
  then have "mset (map id_num (concat (rotated_groups (groups_of N) r)))
      = mset (map id_num (master_list N))"
    by (simp only: mset_map concat_groups_of)
  then show ?thesis by (simp only: map_id_num_master_list)
qed

lemma pattern_pool_ids:
  fixes a b c d :: "volunteer list"
  defines "cd \<equiv> map_of (zip slot_keys [a, b, c, d])"
  shows "id_num ` set (shift_pool cd [''1'', ''2'']) = id_num ` set a \<union> id_num ` set b"
    and "id_num ` set (shift_pool cd [''3'', ''4'']) = id_num ` set c \<union> id_num ` set d"
    and "id_num ` set (shift_pool cd [''1'']) = id_num ` set a"
    and "id_num ` set (shift_pool cd [''2'']) = id_num ` set b"
    and "id_num ` set (shift_pool cd [''3'']) = id_num ` set c"
    and "id_num ` set (shift_pool cd [''4'']) = id_num ` set d"
  by (simp_all add: cd_def set_shift_pool slot_keys_def image_Un)

lemma pattern_key_lists:
  "map (fst \<circ> snd) schedule_pattern =
     [[''1'', ''2''], [''3'', ''4''], [''1'', ''2''], [''3'', ''4''],
      [''1''], [''2''], [''3''], [''4''], [''1''], [''2''], [''3''], [''4'']]"
  by (simp add: schedule_pattern_def)

lemma pattern_filter_count:
  "length (filter (\<lambda>(ts, keys, req). P keys) schedule_pattern)
   = sum_list (map (\<lambda>keys. if P keys then 1 else (0::nat)) (map (fst \<circ> snd) schedule_pattern))"
  by (simp add: length_filter_sum comp_def case_prod_unfold)

lemma on_duty_count:
  assumes "distinct (map id_num (concat [a, b, c, d]))"
    and "k \<in> id_num ` set (concat [a, b, c, d])"
  shows "length (filter (\<lambda>(ts, keys, req).
            k \<in> id_num ` set (shift_pool (map_of (zip slot_keys [a, b, c, d])) keys))
          schedule_pattern) = 4"
proof -
  define A where "A = id_num ` set a"
  define B where "B = id_num ` set b"
  define C where "C = id_num ` set c"
  define D where "D = id_num ` set d"
  from assms(1) have dis:
    "A \<inter> B = {}" "A \<inter> C = {}" "A \<inter> D = {}" "B \<inter> C = {}" "B \<inter> D = {}" "C \<inter> D = {}"
    unfolding A_def B_def C_def D_def by auto
  from assms(2) have mem: "k \<in> A \<or> k \<in> B \<or> k \<in> C \<or> k \<in> D"
    unfolding A_def B_def C_def D_def by auto
  have count: "length (filter (\<lambda>(ts, keys, req).
            k \<in> id_num ` set (shift_pool (map_of (zip slot_keys [a, b, c, d])) keys))
          schedule_pattern)
      = (if k \<in> A \<union> B then 1 else 0) + ((if k \<in> C \<union> D then 1 else 0)
        + ((if k \<in> A \<union> B then 1 else 0) + ((if k \<in> C \<union> D then 1 else 0)
        + ((if k \<in> A then 1 else 0) + ((if k \<in> B then 1 else 0)
        + ((if k \<in> C then 1 else 0) + ((if k \<in> D then 1 else 0)
        + ((if k \<in> A then 1 else 0) + ((if k \<in> B then 1 else 0)
        + ((if k \<in> C then 1 else 0) + ((if k \<in> D then 1 else 0) + 0)))))))))))"
    unfolding A_def B_def C_def D_def
    by (simp only: pattern_filter_count pattern_key_lists list.map sum_list.Cons sum_list.Nil
        pattern_pool_ids)
  show ?thesis
  proof (cases "k \<in> A")
    case True
    with dis have "k \<notin> B" "k \<notin> C" "k \<notin> D" by blast+
    with True show ?thesis unfolding count by simp
  next
    case na: False
    show ?thesis
    proof (cases "k \<in> B")
      case True
      with dis have "k \<notin> C" "k \<notin> D" by blast+
      with na True show ?thesis unfolding count by simp
    next
      case nb: False
      show ?thesis
      proof (cases "k \<in> C")
        case True
        with dis have "k \<notin> D" by blast
        with na nb True show ?thesis unfolding count by simp
      next
        case nc: False
        with mem na nb have "k \<in> D" by blast
        with na nb nc show ?thesis unfolding count by simp
      qed
    qed
  qed
qed

lemma key_counts:
  "list_all (\<lambda>key.
       length (filter (\<lambda>(ts, keys, req). key \<in> set keys \<and> req = 4) schedule_pattern) = 2
     \<and> length (filter (\<lambda>(ts, keys, req). key \<in> set keys \<and> req = 2) schedule_pattern) = 2)
     slot_keys"
  by (simp add: schedule_pattern_def slot_keys_def)

lemma sum_list_swap:
  fixes f :: "'a \<Rightarrow> 'b \<Rightarrow> nat"
  shows "sum_list (map (\<lambda>i. sum_list (map (f i) es)) is)
       = sum_list (map (\<lambda>e. sum_list (map (\<lambda>i. f i e) is)) es)"
proof (induction "is")
  case Nil
  show ?case by simp
next
  case (Cons i "is")
  then show ?case by (simp add: sum_list_addf)
qed

lemma length_concat_map: "length (concat (map f xs)) = sum_list (map (\<lambda>x. length (f x)) xs)"
  by (simp add: length_concat comp_def)

lemma duty_records_count:
  assumes "\<forall>(ts, keys, req)\<in>set pat. 0 \<le> req \<and> distinct (map id_num (pool keys))"
  shows "length (concat (map (\<lambda>i. concat (map (\<lambda>(ts, keys, req).
             if k \<in> id_num ` set (counter_slice (pool keys) req i)
             then [(ts, counter_label i, ''Counter Duty'')] else []) pat)) [0..<counters])
         @ concat (map (\<lambda>(ts, keys, req).
             if k \<in> id_num ` set (reserve_slice (pool keys) req)
             then [(ts, ''Reserve Area'', ''Standby'')] else []) pat))
       = length (filter (\<lambda>(ts, keys, req). k \<in> id_num ` set (pool keys)) pat)"
proof -
  let ?a = "\<lambda>i e. case e of (ts, keys, req) \<Rightarrow>
              if k \<in> id_num ` set (counter_slice (pool keys) req i) then 1 else (0::nat)"
  let ?b = "\<lambda>e. case e of (ts, keys, req) \<Rightarrow>
              if k \<in> id_num ` set (reserve_slice (pool keys) req) then 1 else (0::nat)"
  let ?p = "\<lambda>e. case e of (ts, keys, req) \<Rightarrow>
              if k \<in> id_num ` set (pool keys) then 1 else (0::nat)"
  have la: "length (case e of (ts, keys, req) \<Rightarrow>
             if k \<in> id_num ` set (counter_slice (pool keys) req i)
             then [(ts, counter_label i, ''Counter Duty'')] else []) = ?a i e" for i e
    by (cases e) simp
  have lb: "length (case e of (ts, keys, req) \<Rightarrow>
             if k \<in> id_num ` set (reserve_slice (pool keys) req)
             then [(ts, ''Reserve Area'', ''Standby'')] else []) = ?b e" for e
    by (cases e) simp
  have "length (concat (map (\<lambda>i. concat (map (\<lambda>(ts, keys, req).
             if k \<in> id_num ` set (counter_slice (pool keys) req i)
             then [(ts, counter_label i, ''Counter Duty'')] else []) pat)) [0..<counters])
         @ concat (map (\<lambda>(ts, keys, req).
             if k \<in> id_num ` set (reserve_slice (pool keys) req)
             then [(ts, ''Reserve Area'', ''Standby'')] else []) pat))
      = sum_list (map (\<lambda>i. sum_list (map (?a i) pat)) [0..<counters]) + sum_list (map ?b pat)"
    by (simp only: length_append length_concat_map la lb)
  also have "\<dots> = sum_list (map (\<lambda>e. sum_list (map (\<lambda>i. ?a i e) [0..<counters])) pat)
                   + sum_list (map ?b pat)"
    by (simp only: sum_list_swap [of _ pat "[0..<counters]"])
  also have "\<dots> = sum_list (map (\<lambda>e. sum_list (map (\<lambda>i. ?a i e) [0..<counters]) + ?b e) pat)"
    by (simp only: sum_list_addf)
  also have "\<dots> = sum_list (map ?p pat)"
  proof (rule arg_cong [where f = sum_list], rule map_cong [OF refl])
    fix e assume e: "e \<in> set pat"
    obtain ts keys req where eq: "e = (ts, keys, req)" by (cases e)
    from assms e have req: "0 \<le> req" and d: "distinct (map id_num (pool keys))"
      by (auto simp add: eq)
    show "sum_list (map (\<lambda>i. ?a i e) [0..<counters]) + ?b e = ?p e"
      using slot_occurrences [OF req d, of k]
      by (simp add: eq length_filter_sum)
  qed
  also have "\<dots> = length (filter (\<lambda>(ts, keys, req). k \<in> id_num ` set (pool keys)) pat)"
    by (simp add: length_filter_sum case_prod_unfold)
  finally show ?thesis .
qed

text \<open>
  Claim C10. For every volunteer count \<open>N\<close>, rotation argument and volunteer number
  \<open>1 \<le> k \<le> N\<close>, the volunteer is in the shift pool of exactly 4 of the 12 pattern entries.
  In each entry the volunteer is in as many counter slices and reserves as in the pool
  (one place if on duty, none otherwise), so the search for the volunteer in the schedule
  that is built reports exactly 4 duties. Each slot key is active in exactly 2 peak and 2
  off-peak entries.
\<close>

theorem on_duty_four_slots:
  assumes "1 \<le> k" and "k \<le> N"
  shows "\<exists>cohort_data df reserves_log.
       generate_schedule N r = Inr cohort_data
     \<and> build_schedule N r = Inr (df, reserves_log)
     \<and> list_all (\<lambda>(ts, keys, req). slot_pool cohort_data keys = Inr (shift_pool cohort_data keys))
          schedule_pattern
     \<and> length (filter (\<lambda>(ts, keys, req). k \<in> id_num ` set (shift_pool cohort_data keys))
          schedule_pattern) = 4
     \<and> list_all (\<lambda>(ts, keys, req).
            length (filter (\<lambda>i. k \<in> id_num ` set (counter_slice (shift_pool cohort_data keys) req i))
                      [0..<counters])
            + (if k \<in> id_num ` set (reserve_slice (shift_pool cohort_data keys) req) then 1 else 0)
            = (if k \<in> id_num ` set (shift_pool cohort_data keys) then 1 else 0))
          schedule_pattern
     \<and> length (find_volunteer (''V-'' @ py_str k) df reserves_log) = 4
     \<and> list_all (\<lambda>key.
            length (filter (\<lambda>(ts, keys, req). key \<in> set keys \<and> req = 4) schedule_pattern) = 2
          \<and> length (filter (\<lambda>(ts, keys, req). key \<in> set keys \<and> req = 2) schedule_pattern) = 2)
          slot_keys"
proof -
  let ?rg = "rotated_groups (groups_of N) r"
  let ?cd = "map_of (zip slot_keys ?rg)"
  let ?df = "map (\<lambda>i. (''Counter'', counter_label i) # cells_of ?cd i schedule_pattern)
               [0..<counters]"
  let ?log = "reserves_of ?cd schedule_pattern"
  have len: "length ?rg = 4" by (simp add: length_rotated_groups length_groups_of)
  have 1: "generate_schedule N r = Inr ?cd" by (rule generate_schedule_closed)
  have 2: "build_schedule N r = Inr (?df, ?log)" by (rule build_schedule_closed)
  have 3: "list_all (\<lambda>(ts, keys, req). slot_pool ?cd keys = Inr (shift_pool ?cd keys))
          schedule_pattern"
    by (rule pattern_pools) (rule dom_cohort_map [OF len])
  have 4: "length (filter (\<lambda>(ts, keys, req). k \<in> id_num ` set (shift_pool ?cd keys))
          schedule_pattern) = 4"
  proof -
    from len obtain a b c d where rg: "?rg = [a, b, c, d]" by (rule length4E)
    have ids: "mset (map id_num (concat [a, b, c, d])) = mset [1..N]"
      using rotated_ids [of N r] by (simp only: rg)
    then have "distinct (map id_num (concat [a, b, c, d])) \<longleftrightarrow> distinct [1..N]"
      by (rule mset_eq_imp_distinct_iff)
    then have d: "distinct (map id_num (concat [a, b, c, d]))"
      by (simp only: distinct_upto)
    from ids have "set (map id_num (concat [a, b, c, d])) = set [1..N]"
      by (rule mset_eq_setD)
    with assms have m: "k \<in> id_num ` set (concat [a, b, c, d])"
      by (simp only: set_map set_upto) simp
    show ?thesis unfolding rg using d m by (rule on_duty_count)
  qed
  have pools: "\<forall>(ts, keys, req)\<in>set schedule_pattern.
      0 \<le> req \<and> distinct (map id_num (shift_pool ?cd keys))"
  proof -
    have "0 \<le> req \<and> distinct (map id_num (shift_pool ?cd keys))"
      if e: "(ts, keys, req) \<in> set schedule_pattern" for ts keys req
      using pattern_entry_keys [OF e] shift_pool_distinct [of keys N r] by blast
    then show ?thesis by blast
  qed
  have 5: "list_all (\<lambda>(ts, keys, req).
            length (filter (\<lambda>i. k \<in> id_num ` set (counter_slice (shift_pool ?cd keys) req i))
                      [0..<counters])
            + (if k \<in> id_num ` set (reserve_slice (shift_pool ?cd keys) req) then 1 else 0)
            = (if k \<in> id_num ` set (shift_pool ?cd keys) then 1 else 0))
          schedule_pattern"
  proof -
    have "length (filter (\<lambda>i. k \<in> id_num ` set (counter_slice (shift_pool ?cd keys) req i))
                      [0..<counters])
            + (if k \<in> id_num ` set (reserve_slice (shift_pool ?cd keys) req) then 1 else 0)
            = (if k \<in> id_num ` set (shift_pool ?cd keys) then 1 else 0)"
      if e: "(ts, keys, req) \<in> set schedule_pattern" for ts keys req
    proof (rule slot_occurrences)
      show "0 \<le> req" using pools e by blast
      show "distinct (map id_num (shift_pool ?cd keys))" using pools e by blast
    qed
    then show ?thesis unfolding list_all_iff by blast
  qed
  have k0: "0 \<le> k" using assms(1) by simp
  have "length (find_volunteer (''V-'' @ py_str k) ?df ?log)
      = length (filter (\<lambda>(ts, keys, req). k \<in> id_num ` set (shift_pool ?cd keys))
          schedule_pattern)"
    unfolding find_volunteer_schedule [OF k0]
    using pools by (rule duty_records_count)
  then have 6: "length (find_volunteer (''V-'' @ py_str k) ?df ?log) = 4"
    by (simp only: 4)
  note 7 = key_counts
  from 1 2 3 4 5 6 7 show ?thesis by blast
qed

theorem on_duty_four_slots_witness:
  "(1::int) \<le> 63 \<and> (63::int) \<le> 250
   \<and> (\<exists>cohort_data df reserves_log.
         generate_schedule 250 1 = Inr cohort_data
       \<and> build_schedule 250 1 = Inr (df, reserves_log)
       \<and> length (filter (\<lambda>(ts, keys, req). 63 \<in> id_num ` set (shift_pool cohort_data keys))
            schedule_pattern) = 4
       \<and> length (find_volunteer ''V-63'' df reserves_log) = 4)"
proof -
  have h1: "(1::int) \<le> 63" and h2: "(63::int) \<le> 250" by simp_all
  have s: "''V-'' @ py_str 63 = ''V-63''" by (simp add: py_str_def str_nat.simps)
  from on_duty_four_slots [OF h1 h2, of 1] have
    "\<exists>cohort_data df reserves_log.
         generate_schedule 250 1 = Inr cohort_data
       \<and> build_schedule 250 1 = Inr (df, reserves_log)
       \<and> length (filter (\<lambda>(ts, keys, req). 63 \<in> id_num ` set (shift_pool cohort_data keys))
            schedule_pattern) = 4
       \<and> length (find_volunteer ''V-63'' df reserves_log) = 4"
    unfolding s by blast
  with h1 h2 show ?thesis by blast
qed

end
